theory Spec2Isabelle
  imports Main "HOL-Library.List_Lexorder"
begin

section \<open>Capynaut: a registry of keyboard and click shortcuts\<close>

text \<open>
  A shallow embedding of \<^verbatim>\<open>src/index.ts\<close> (class \<^verbatim>\<open>Capynaut\<close>).

  Conventions of the model:
  \<^item> a JavaScript string is the list of its UTF-16 code units, each a natural number;
    \<^verbatim>\<open>split\<close>, \<^verbatim>\<open>includes\<close>, \<^verbatim>\<open>join\<close>, \<^verbatim>\<open>===\<close> and the default \<^verbatim>\<open>sort()\<close> work on code units, and
    the order of \<^verbatim>\<open>sort()\<close> is the lexicographic order of the lists;
  \<^item> \<^verbatim>\<open>String.prototype.trim\<close> strips the white space and line terminators of ECMAScript,
    all of which are single code units;
  \<^item> \<^verbatim>\<open>String.prototype.toLowerCase\<close> and the text an engine prints for a native function are
    not defined here: they are the fields of a \<open>host\<close> that every function takes, and
    every theorem holds for every host;
  \<^item> the alias table is a plain object literal, so indexing it also finds the properties
    it inherits from \<^verbatim>\<open>Object.prototype\<close>; their values are functions or objects, not
    strings, and a key array can hold one;
  \<^item> a callback is an opaque value of a type \<open>'cb\<close>: the model records which callbacks an
    event invokes, in order; a callback is taken to return, and what it does to the
    instance it does through the public methods, so that it shows as further calls;
  \<^item> a \<^verbatim>\<open>TypeError\<close> thrown is the value \<open>Inl (TypeError msg)\<close>; the calls of
    \<^verbatim>\<open>console.warn\<close> and \<^verbatim>\<open>console.log\<close> are returned as lists of messages;
  \<^item> the arguments are those the TypeScript signatures admit, so the \<^verbatim>\<open>typeof\<close> checks that
    cannot fail on well-typed arguments have no branch; default arguments are passed
    explicitly.
\<close>

subsection \<open>Strings\<close>

type_synonym jsstring = "nat list"

text \<open>The JavaScript string written with the ASCII characters of \<open>s\<close>.\<close>

definition js :: "string \<Rightarrow> jsstring" where
  "js s = map of_char s"

text \<open>\<^verbatim>\<open>WhiteSpace\<close> and \<^verbatim>\<open>LineTerminator\<close> of ECMAScript: tab, line feed, vertical tab, form
  feed, carriage return, space, no-break space, the other space separators of Unicode,
  line and paragraph separator, and the byte order mark.\<close>

definition isWhiteSpace :: "nat \<Rightarrow> bool" where
  "isWhiteSpace c =
     (c \<in> set [0x9, 0xA, 0xB, 0xC, 0xD, 0x20, 0xA0, 0x1680, 0x2028, 0x2029, 0x202F, 0x205F,
                0x3000, 0xFEFF]
      \<or> (0x2000 \<le> c \<and> c \<le> 0x200A))"

definition trim :: "jsstring \<Rightarrow> jsstring" where
  "trim s = rev (dropWhile isWhiteSpace (rev (dropWhile isWhiteSpace s)))"

text \<open>\<^verbatim>\<open>s.split(c)\<close> for a separator of one code unit: never empty, \<^verbatim>\<open>"".split(c)\<close> is \<^verbatim>\<open>[""]\<close>.\<close>

fun split :: "nat \<Rightarrow> jsstring \<Rightarrow> jsstring list" where
  "split c [] = [[]]"
| "split c (x # xs) =
     (if x = c then [] # split c xs
      else (case split c xs of [] \<Rightarrow> [[x]] | p # ps \<Rightarrow> (x # p) # ps))"

text \<open>\<^verbatim>\<open>xs.join(sep)\<close> on an array of strings.\<close>

fun join :: "jsstring \<Rightarrow> jsstring list \<Rightarrow> jsstring" where
  "join sep [] = []"
| "join sep [x] = x"
| "join sep (x # y # ys) = x @ sep @ join sep (y # ys)"

definition includesChar :: "jsstring \<Rightarrow> nat \<Rightarrow> bool" where
  "includesChar s c = (c \<in> set s)"

text \<open>The code units of \<open>+\<close> and \<open>|\<close>.\<close>

definition plusSign :: nat where
  "plusSign = of_char CHR ''+''"

definition bar :: nat where
  "bar = of_char CHR ''|''"

text \<open>A name between apostrophes, as the messages of the source print it.\<close>

definition quoted :: "jsstring \<Rightarrow> jsstring" where
  "quoted s = 0x27 # s @ [0x27]"

subsection \<open>The host\<close>

text \<open>
  What the engine supplies: \<^verbatim>\<open>String.prototype.toLowerCase\<close>, and the string conversion of
  the value that \<^verbatim>\<open>Object.prototype\<close> holds under a given name (the source text of a native
  function, or \<^verbatim>\<open>[object Object]\<close>).
\<close>

record host =
  toLowerCase :: "jsstring \<Rightarrow> jsstring"
  inheritedToString :: "jsstring \<Rightarrow> jsstring"

subsection \<open>Values in a key array\<close>

text \<open>A string, or the value inherited from \<^verbatim>\<open>Object.prototype\<close> under the given name.\<close>

datatype jsval = JString jsstring | JInherited jsstring

definition ToString :: "host \<Rightarrow> jsval \<Rightarrow> jsstring" where
  "ToString h v = (case v of JString s \<Rightarrow> s | JInherited n \<Rightarrow> inheritedToString h n)"

text \<open>\<^verbatim>\<open>keys.join("+")\<close> converts each element to a string; \<^verbatim>\<open>[...keys].sort().join("+")\<close>
  orders the elements by their string conversions first.\<close>

definition joinKeys :: "host \<Rightarrow> jsval list \<Rightarrow> jsstring" where
  "joinKeys h ks = join (js ''+'') (map (ToString h) ks)"

definition sortJoinKeys :: "host \<Rightarrow> jsval list \<Rightarrow> jsstring" where
  "sortJoinKeys h ks = join (js ''+'') (sort (map (ToString h) ks))"

subsection \<open>The alias table\<close>

definition KEY_ALIAS_table :: "(jsstring \<times> jsstring) list" where
  "KEY_ALIAS_table =
     [(js ''esc'', js ''escape''),
      (js ''del'', js ''delete''),
      (js ''space'', js '' ''),
      (js ''control'', js ''ctrl''),
      (js ''alt'', js ''alt''),
      (js ''shift'', js ''shift''),
      (js ''meta'', js ''meta'')]"

text \<open>The names of the properties of \<^verbatim>\<open>Object.prototype\<close>.\<close>

definition objectPrototypeNames :: "jsstring list" where
  "objectPrototypeNames =
     map js [''constructor'', ''__defineGetter__'', ''__defineSetter__'', ''hasOwnProperty'',
             ''__lookupGetter__'', ''__lookupSetter__'', ''isPrototypeOf'',
             ''propertyIsEnumerable'', ''toString'', ''valueOf'', ''__proto__'',
             ''toLocaleString'']"

text \<open>\<^verbatim>\<open>Capynaut.#KEY_ALIAS[k]\<close>: an own entry, else an inherited property, else
  \<^verbatim>\<open>undefined\<close>.\<close>

definition KEY_ALIAS :: "jsstring \<Rightarrow> jsval option" where
  "KEY_ALIAS k =
     (case map_of KEY_ALIAS_table k of
        Some v \<Rightarrow> Some (JString v)
      | None \<Rightarrow> if k \<in> set objectPrototypeNames then Some (JInherited k) else None)"

text \<open>\<^verbatim>\<open>Capynaut.#KEY_ALIAS[key] || key\<close>: every value found is truthy (a non-empty string, a
  function or an object).\<close>

definition aliasOr :: "jsstring \<Rightarrow> jsval" where
  "aliasOr k = (case KEY_ALIAS k of Some v \<Rightarrow> v | None \<Rightarrow> JString k)"

subsection \<open>Errors\<close>

datatype error = TypeError jsstring

subsection \<open>\<^verbatim>\<open>#parseKeys\<close>\<close>

text \<open>The first \<^verbatim>\<open>forEach\<close>: the state of the loop is the pair \<open>(keysBase, keysSplit)\<close>.\<close>

definition partStep :: "jsstring \<Rightarrow> jsval list \<times> jsval list \<Rightarrow> jsval list \<times> jsval list" where
  "partStep part acc =
     (case acc of (keysBase, keysSplit) \<Rightarrow>
        if includesChar part bar
        then (keysBase, fold (\<lambda>key ks. ks @ [aliasOr key]) (split bar part) keysSplit)
        else (keysBase @ [aliasOr part], keysSplit))"

text \<open>\<^verbatim>\<open>key.trim()\<close>: a value that is not a string has no method \<^verbatim>\<open>trim\<close>, and the call
  throws.\<close>

definition trimOf :: "jsval \<Rightarrow> error + jsstring" where
  "trimOf key =
     (case key of
        JString s \<Rightarrow> Inr (trim s)
      | JInherited n \<Rightarrow> Inl (TypeError (js ''key.trim is not a function'')))"

text \<open>The second \<^verbatim>\<open>forEach\<close>: the state of the loop is \<open>keysMerged\<close>, or the error thrown.\<close>

definition mergeStep ::
  "jsval list \<Rightarrow> jsval \<Rightarrow> error + jsval list list \<Rightarrow> error + jsval list list" where
  "mergeStep keysBase key acc =
     (case acc of
        Inl e \<Rightarrow> Inl e
      | Inr keysMerged \<Rightarrow>
          (case trimOf key of
             Inl e \<Rightarrow> Inl e
           | Inr t \<Rightarrow> if t \<noteq> [] then Inr (keysMerged @ [keysBase @ [key]]) else Inr keysMerged))"

definition notDefinedCorrectly :: error where
  "notDefinedCorrectly = TypeError (quoted (js ''keys'') @ js '' is not defined correctly'')"

definition parseParts :: "jsstring list \<Rightarrow> error + jsval list list" where
  "parseParts keyParts =
     (case fold partStep keyParts ([], []) of (keysBase, keysSplit) \<Rightarrow>
        if keysSplit \<noteq> [] then
          (case fold (mergeStep keysBase) keysSplit (Inr []) of
             Inl e \<Rightarrow> Inl e
           | Inr keysMerged \<Rightarrow>
               if keysMerged = [] then Inl notDefinedCorrectly else Inr keysMerged)
        else Inr [keysBase])"

definition keyPartsOf :: "host \<Rightarrow> jsstring \<Rightarrow> jsstring list" where
  "keyPartsOf h ks = map trim (split plusSign (toLowerCase h ks))"

definition parseKeys :: "host \<Rightarrow> jsstring \<Rightarrow> error + jsval list list" where
  "parseKeys h ks = parseParts (keyPartsOf h ks)"

subsection \<open>Bindings and the registry\<close>

record 'cb keyBinding =
  keys :: "jsval list"
  callback :: 'cb
  description :: jsstring
  enabled :: bool

text \<open>
  The private fields of an instance. \<open>keydownListener\<close> and \<open>clickListener\<close> say whether
  \<^verbatim>\<open>#boundHandleKeydown\<close> is at present registered on \<^verbatim>\<open>#element\<close> for that event type.
\<close>

record 'cb capynaut =
  bindings :: "'cb keyBinding list"
  debug :: bool
  keydownListener :: bool
  clickListener :: bool

text \<open>The constructor, on an element that passes its \<^verbatim>\<open>instanceof\<close> check.\<close>

definition new :: "'cb capynaut" where
  "new = \<lparr>bindings = [], debug = False, keydownListener = True, clickListener = True\<rparr>"

definition keysEmptyError :: error where
  "keysEmptyError = TypeError (quoted (js ''keys'') @ js '' must be a string and cannot be empty'')"

subsection \<open>\<^verbatim>\<open>bind\<close>, \<^verbatim>\<open>unbind\<close>, \<^verbatim>\<open>rebind\<close>\<close>

text \<open>Each body of a \<^verbatim>\<open>parsedKeys.forEach\<close> is a step on the pair of the bindings and
  the warnings printed so far.\<close>

definition bindStep ::
  "host \<Rightarrow> 'cb \<Rightarrow> jsstring \<Rightarrow> bool \<Rightarrow> jsval list \<Rightarrow> 'cb keyBinding list \<times> jsstring list
     \<Rightarrow> 'cb keyBinding list \<times> jsstring list" where
  "bindStep h cb desc en ks acc =
     (case acc of (bs, warns) \<Rightarrow>
        let keysJoin = joinKeys h ks in
        if \<not> list_ex (\<lambda>binding. joinKeys h (keys binding) = keysJoin) bs
        then (bs @ [\<lparr>keys = ks, callback = cb, description = desc, enabled = en\<rparr>], warns)
        else (bs, warns @ [js ''Shortcut '' @ quoted keysJoin @ js '' is already registered'']))"

definition bind ::
  "host \<Rightarrow> 'cb capynaut \<Rightarrow> jsstring \<Rightarrow> 'cb \<Rightarrow> jsstring \<Rightarrow> bool
     \<Rightarrow> error + 'cb capynaut \<times> jsstring list" where
  "bind h st ks cb desc en =
     (if trim ks = [] then Inl keysEmptyError
      else case parseKeys h ks of
             Inl e \<Rightarrow> Inl e
           | Inr parsedKeys \<Rightarrow>
               (case fold (bindStep h cb desc en) parsedKeys (bindings st, []) of
                  (bs, warns) \<Rightarrow> Inr (st\<lparr>bindings := bs\<rparr>, warns)))"

definition unbindStep ::
  "host \<Rightarrow> jsval list \<Rightarrow> 'cb keyBinding list \<times> jsstring list
     \<Rightarrow> 'cb keyBinding list \<times> jsstring list" where
  "unbindStep h ks acc =
     (case acc of (bs, warns) \<Rightarrow>
        let keysJoin = joinKeys h ks;
            bindingsLength = length bs;
            bs' = filter (\<lambda>binding. joinKeys h (keys binding) \<noteq> keysJoin) bs
        in if length bs' = bindingsLength
           then (bs', warns @ [js ''Shortcut '' @ quoted keysJoin @ js '' is not registered''])
           else (bs', warns))"

definition unbind ::
  "host \<Rightarrow> 'cb capynaut \<Rightarrow> jsstring \<Rightarrow> error + 'cb capynaut \<times> jsstring list" where
  "unbind h st ks =
     (if trim ks = [] then Inl keysEmptyError
      else case parseKeys h ks of
             Inl e \<Rightarrow> Inl e
           | Inr parsedKeys \<Rightarrow>
               (case fold (unbindStep h) parsedKeys (bindings st, []) of
                  (bs, warns) \<Rightarrow> Inr (st\<lparr>bindings := bs\<rparr>, warns)))"

definition rebindStep ::
  "host \<Rightarrow> 'cb \<Rightarrow> jsstring \<Rightarrow> bool \<Rightarrow> jsval list \<Rightarrow> 'cb keyBinding list \<times> jsstring list
     \<Rightarrow> 'cb keyBinding list \<times> jsstring list" where
  "rebindStep h cb desc en ks acc =
     (case acc of (bs, warns) \<Rightarrow>
        let keysJoin = joinKeys h ks;
            bindingsLength = length bs;
            bs' = filter (\<lambda>binding. keysJoin \<noteq> joinKeys h (keys binding)) bs
        in if length bs' < bindingsLength
           then (bs' @ [\<lparr>keys = ks, callback = cb, description = desc, enabled = en\<rparr>], warns)
           else (bs', warns @ [js ''Shortcut '' @ quoted keysJoin @ js '' is not registered'']))"

definition rebind ::
  "host \<Rightarrow> 'cb capynaut \<Rightarrow> jsstring \<Rightarrow> 'cb \<Rightarrow> jsstring \<Rightarrow> bool
     \<Rightarrow> error + 'cb capynaut \<times> jsstring list" where
  "rebind h st ks cb desc en =
     (if trim ks = [] then Inl keysEmptyError
      else case parseKeys h ks of
             Inl e \<Rightarrow> Inl e
           | Inr parsedKeys \<Rightarrow>
               (case fold (rebindStep h cb desc en) parsedKeys (bindings st, []) of
                  (bs, warns) \<Rightarrow> Inr (st\<lparr>bindings := bs\<rparr>, warns)))"

subsection \<open>\<^verbatim>\<open>#toggle\<close>, \<^verbatim>\<open>enable\<close>, \<^verbatim>\<open>disable\<close>\<close>

text \<open>The inner \<^verbatim>\<open>this.#bindings.forEach\<close>: the bindings visited so far (updated in place)
  and the flag \<open>found\<close>.\<close>

definition toggleVisit ::
  "host \<Rightarrow> jsstring \<Rightarrow> bool \<Rightarrow> 'cb keyBinding \<Rightarrow> 'cb keyBinding list \<times> bool
     \<Rightarrow> 'cb keyBinding list \<times> bool" where
  "toggleVisit h keysJoin en binding acc =
     (case acc of (visited, found) \<Rightarrow>
        if joinKeys h (keys binding) = keysJoin
        then (visited @ [binding\<lparr>enabled := en\<rparr>], True)
        else (visited @ [binding], found))"

definition toggleStep ::
  "host \<Rightarrow> bool \<Rightarrow> jsval list \<Rightarrow> 'cb keyBinding list \<times> jsstring list
     \<Rightarrow> 'cb keyBinding list \<times> jsstring list" where
  "toggleStep h en ks acc =
     (case acc of (bs, warns) \<Rightarrow>
        let keysJoin = joinKeys h ks in
        case fold (toggleVisit h keysJoin en) bs ([], False) of
          (bs', found) \<Rightarrow>
            if \<not> found
            then (bs', warns @ [js ''Shortcut '' @ quoted keysJoin
                                 @ js '' is not registered and cannot be ''
                                 @ (if en then js ''enabled'' else js ''disabled'')])
            else (bs', warns))"

definition toggle ::
  "host \<Rightarrow> 'cb capynaut \<Rightarrow> jsstring \<Rightarrow> bool \<Rightarrow> error + 'cb capynaut \<times> jsstring list" where
  "toggle h st ks en =
     (case parseKeys h ks of
        Inl e \<Rightarrow> Inl e
      | Inr parsedKeys \<Rightarrow>
          (case fold (toggleStep h en) parsedKeys (bindings st, []) of
             (bs, warns) \<Rightarrow> Inr (st\<lparr>bindings := bs\<rparr>, warns)))"

definition enable ::
  "host \<Rightarrow> 'cb capynaut \<Rightarrow> jsstring \<Rightarrow> error + 'cb capynaut \<times> jsstring list" where
  "enable h st ks = (if trim ks = [] then Inl keysEmptyError else toggle h st ks True)"

definition disable ::
  "host \<Rightarrow> 'cb capynaut \<Rightarrow> jsstring \<Rightarrow> error + 'cb capynaut \<times> jsstring list" where
  "disable h st ks = (if trim ks = [] then Inl keysEmptyError else toggle h st ks False)"

subsection \<open>\<^verbatim>\<open>debug\<close>, \<^verbatim>\<open>destroy\<close>, \<^verbatim>\<open>docs\<close>\<close>

definition setDebug :: "'cb capynaut \<Rightarrow> bool \<Rightarrow> 'cb capynaut" where
  "setDebug st en = st\<lparr>debug := en\<rparr>"

text \<open>\<^verbatim>\<open>removeEventListener\<close> of a listener that is not registered does nothing.\<close>

definition destroy :: "'cb capynaut \<Rightarrow> 'cb capynaut" where
  "destroy st = st\<lparr>keydownListener := False, clickListener := False, bindings := []\<rparr>"

definition docs :: "host \<Rightarrow> 'cb capynaut \<Rightarrow> bool \<Rightarrow> ((jsstring + jsval list) \<times> jsstring) list" where
  "docs h st readable =
     map (\<lambda>b. (if readable then Inl (join (js '' + '') (map (ToString h) (keys b)))
                else Inr (keys b), description b))
       (bindings st)"

subsection \<open>Events and \<^verbatim>\<open>#handleKeydown\<close>\<close>

text \<open>
  What the handler reads of an event: its class (\<^verbatim>\<open>instanceof KeyboardEvent\<close>,
  \<^verbatim>\<open>instanceof MouseEvent\<close>, or neither), the four modifier flags and, for a keyboard
  event, \<^verbatim>\<open>event.key\<close>.
\<close>

datatype event =
    KeyboardEvent (ctrlKey: bool) (altKey: bool) (shiftKey: bool) (metaKey: bool) (key: jsstring)
  | MouseEvent (ctrlKey: bool) (altKey: bool) (shiftKey: bool) (metaKey: bool)
  | OtherEvent

text \<open>The pushes on \<open>pressed\<close>; \<open>None\<close> is the early \<^verbatim>\<open>return\<close> of the \<^verbatim>\<open>else\<close> branch.\<close>

definition modifiersPressed :: "bool \<Rightarrow> bool \<Rightarrow> bool \<Rightarrow> bool \<Rightarrow> jsstring list" where
  "modifiersPressed c a s m =
     (if c then [js ''ctrl''] else []) @ (if a then [js ''alt''] else [])
       @ (if s then [js ''shift''] else []) @ (if m then [js ''meta''] else [])"

fun pressedOf :: "host \<Rightarrow> event \<Rightarrow> jsstring list option" where
  "pressedOf h (MouseEvent c a s m) = Some (modifiersPressed c a s m @ [js ''click''])"
| "pressedOf h (KeyboardEvent c a s m k) =
     (let keyPressed = toLowerCase h k
      in if KEY_ALIAS keyPressed = None
         then Some (modifiersPressed c a s m @ [keyPressed])
         else Some (modifiersPressed c a s m))"
| "pressedOf h OtherEvent = None"

text \<open>What one call of the handler does to the outside: the callbacks it invokes, whether
  it calls \<^verbatim>\<open>event.preventDefault\<close>, and the lines it prints with \<^verbatim>\<open>console.log\<close>.\<close>

record 'cb effect =
  invoked :: "'cb list"
  defaultPrevented :: bool
  logged :: "jsstring list"

definition noEffect :: "'cb effect" where
  "noEffect = \<lparr>invoked = [], defaultPrevented = False, logged = []\<rparr>"

text \<open>The \<^verbatim>\<open>for (const binding of this.#bindings)\<close> loop with its \<^verbatim>\<open>break\<close>.\<close>

fun forBindings :: "host \<Rightarrow> jsstring list \<Rightarrow> 'cb keyBinding list \<Rightarrow> 'cb effect \<Rightarrow> 'cb effect" where
  "forBindings h pressed [] eff = eff"
| "forBindings h pressed (binding # rest) eff =
     (let sortedBinding = sortJoinKeys h (keys binding);
          sortedPressed = join (js ''+'') (sort pressed)
      in if sortedBinding = sortedPressed \<and> enabled binding
         then eff\<lparr>defaultPrevented := True, invoked := invoked eff @ [callback binding]\<rparr>
         else forBindings h pressed rest eff)"

definition handleKeydown :: "host \<Rightarrow> 'cb capynaut \<Rightarrow> event \<Rightarrow> 'cb effect" where
  "handleKeydown h st ev =
     (case pressedOf h ev of
        None \<Rightarrow> noEffect
      | Some pressed \<Rightarrow>
          (let eff = forBindings h pressed (bindings st) noEffect
           in if debug st then eff\<lparr>logged := logged eff @ [join (js '' + '') pressed]\<rparr> else eff))"

text \<open>
  The element dispatching an event of type \<open>ty\<close>: the handler runs when it is registered
  for that type.
\<close>

definition dispatchEvent :: "host \<Rightarrow> 'cb capynaut \<Rightarrow> jsstring \<Rightarrow> event \<Rightarrow> 'cb effect" where
  "dispatchEvent h st ty ev =
     (if (ty = js ''keydown'' \<and> keydownListener st) \<or> (ty = js ''click'' \<and> clickListener st)
      then handleKeydown h st ev else noEffect)"

subsection \<open>Sequences of public calls\<close>

datatype 'cb call =
    Bind jsstring 'cb jsstring bool
  | Unbind jsstring
  | Rebind jsstring 'cb jsstring bool
  | Enable jsstring
  | Disable jsstring
  | Debug bool
  | Destroy
  | Docs bool

text \<open>The instance after a call; a call that throws leaves it as it was (every
  \<^verbatim>\<open>throw\<close> comes before the first assignment). Dispatching an event is not among the
  calls: the handler assigns to no field.\<close>

definition afterCall :: "error + 'cb capynaut \<times> jsstring list \<Rightarrow> 'cb capynaut \<Rightarrow> 'cb capynaut" where
  "afterCall r st = (case r of Inl e \<Rightarrow> st | Inr (st', warns) \<Rightarrow> st')"

fun perform :: "host \<Rightarrow> 'cb capynaut \<Rightarrow> 'cb call \<Rightarrow> 'cb capynaut" where
  "perform h st (Bind ks cb desc en) = afterCall (bind h st ks cb desc en) st"
| "perform h st (Unbind ks) = afterCall (unbind h st ks) st"
| "perform h st (Rebind ks cb desc en) = afterCall (rebind h st ks cb desc en) st"
| "perform h st (Enable ks) = afterCall (enable h st ks) st"
| "perform h st (Disable ks) = afterCall (disable h st ks) st"
| "perform h st (Debug en) = setDebug st en"
| "perform h st Destroy = destroy st"
| "perform h st (Docs readable) = st"

definition run :: "host \<Rightarrow> 'cb capynaut \<Rightarrow> 'cb call list \<Rightarrow> 'cb capynaut" where
  "run h st calls = foldl (perform h) st calls"

text \<open>The canonical form used at match time, and the identity used at bind time.\<close>

definition canonical :: "host \<Rightarrow> jsval list \<Rightarrow> jsstring" where
  "canonical h ks = sortJoinKeys h ks"

definition keysJoinOf :: "host \<Rightarrow> 'cb keyBinding \<Rightarrow> jsstring" where
  "keysJoinOf h b = joinKeys h (keys b)"

subsection \<open>A host for the examples\<close>

text \<open>
  On ASCII strings every engine lower-cases as \<open>asciiLower\<close> does. \<open>nativeText\<close> is what V8
  prints for the values that \<^verbatim>\<open>Object.prototype\<close> holds. The examples below evaluate the
  model in this host; the general theorems hold in every host.
\<close>

definition asciiLower :: "jsstring \<Rightarrow> jsstring" where
  "asciiLower s = map (\<lambda>c. if 65 \<le> c \<and> c \<le> 90 then c + 32 else c) s"

definition nativeText :: "jsstring \<Rightarrow> jsstring" where
  "nativeText n =
     (if n = js ''__proto__'' then js ''[object Object]''
      else js ''function '' @ (if n = js ''constructor'' then js ''Object'' else n)
             @ js ''() { [native code] }'')"

definition asciiHost :: host where
  "asciiHost = \<lparr>toLowerCase = asciiLower, inheritedToString = nativeText\<rparr>"

subsection \<open>The parser as the specification words it\<close>

text \<open>
  Alias resolution as the specification lists it: \<open>esc\<close> to \<open>escape\<close>, \<open>del\<close> to \<open>delete\<close>,
  \<open>space\<close> to a blank, \<open>control\<close> to \<open>ctrl\<close>; any other part is kept.
\<close>

definition specAlias :: "jsstring \<Rightarrow> jsstring" where
  "specAlias k =
     (if k = js ''esc'' then js ''escape''
      else if k = js ''del'' then js ''delete''
      else if k = js ''space'' then js '' ''
      else if k = js ''control'' then js ''ctrl''
      else k)"

text \<open>
  The parts without \<open>|\<close> form the fixed prefix, in their order; the parts with \<open>|\<close> are the
  alternation groups; an alternative is blank when nothing is left of it after trimming.
\<close>

definition alternationParts :: "jsstring list \<Rightarrow> jsstring list" where
  "alternationParts parts = filter (\<lambda>p. includesChar p bar) parts"

definition fixedParts :: "jsstring list \<Rightarrow> jsstring list" where
  "fixedParts parts = filter (\<lambda>p. \<not> includesChar p bar) parts"

definition specPrefix :: "jsstring list \<Rightarrow> jsval list" where
  "specPrefix parts = map (\<lambda>p. JString (specAlias p)) (fixedParts parts)"

definition specAlternatives :: "jsstring list \<Rightarrow> jsstring list" where
  "specAlternatives parts =
     filter (\<lambda>a. trim a \<noteq> [])
       (concat (map (\<lambda>p. map specAlias (split bar p)) (alternationParts parts)))"

definition specParse :: "host \<Rightarrow> jsstring \<Rightarrow> error + jsval list list" where
  "specParse h ks =
     (let parts = map trim (split plusSign (toLowerCase h ks)) in
      if list_ex (\<lambda>p. includesChar p bar) parts
      then (if specAlternatives parts = [] then Inl notDefinedCorrectly
            else Inr (map (\<lambda>a. specPrefix parts @ [JString a]) (specAlternatives parts)))
      else Inr [specPrefix parts])"

text \<open>No part and no alternative is the name of a property of \<^verbatim>\<open>Object.prototype\<close>.\<close>

definition ownNamesOnly :: "jsstring list \<Rightarrow> bool" where
  "ownNamesOnly parts =
     list_all (\<lambda>p. list_all (\<lambda>a. a \<notin> set objectPrototypeNames) (split bar p)) parts"

text \<open>The expansions one alternation group contributes, and a parser in which only the
  last group counts.\<close>

definition groupExpansion :: "jsval list \<Rightarrow> jsstring \<Rightarrow> jsval list list" where
  "groupExpansion prefix p =
     map (\<lambda>a. prefix @ [JString a]) (filter (\<lambda>a. trim a \<noteq> []) (map specAlias (split bar p)))"

definition lastGroupParse :: "host \<Rightarrow> jsstring \<Rightarrow> error + jsval list list" where
  "lastGroupParse h ks =
     (let parts = keyPartsOf h ks; groups = alternationParts parts in
      if groups = [] then Inr [specPrefix parts]
      else (let seqs = groupExpansion (specPrefix parts) (last groups)
            in if seqs = [] then Inl notDefinedCorrectly else Inr seqs))"

subsection \<open>Matching, as the specification words it\<close>

text \<open>A binding matches the pressed tokens when it is enabled and its sorted, joined keys
  equal the sorted, joined pressed tokens.\<close>

definition matches :: "host \<Rightarrow> jsstring list \<Rightarrow> 'cb keyBinding \<Rightarrow> bool" where
  "matches h pressed b = (enabled b \<and> canonical h (keys b) = join (js ''+'') (sort pressed))"

subsection \<open>The pressed tokens, as the specification words them\<close>

text \<open>
  The key identifier is left out when it is ``a recognized alias target already covered by
  a modifier name'': read here, in the way most favourable to the code, as an identifier
  that alias resolution takes to one of the four modifier names (so \<open>control\<close>, which
  resolves to \<open>ctrl\<close>, counts).
\<close>

definition modifierNames :: "jsstring list" where
  "modifierNames = [js ''ctrl'', js ''alt'', js ''shift'', js ''meta'']"

definition coveredByModifier :: "jsstring \<Rightarrow> bool" where
  "coveredByModifier k = (specAlias k \<in> set modifierNames)"

fun specPressedOf :: "host \<Rightarrow> event \<Rightarrow> jsstring list option" where
  "specPressedOf h (MouseEvent c a s m) = Some (modifiersPressed c a s m @ [js ''click''])"
| "specPressedOf h (KeyboardEvent c a s m k) =
     Some (modifiersPressed c a s m
             @ (if coveredByModifier (toLowerCase h k) then [] else [toLowerCase h k]))"
| "specPressedOf h OtherEvent = None"

subsection \<open>Auxiliary notions for the registry\<close>

text \<open>The binding pushed by \<^verbatim>\<open>bind\<close> and \<^verbatim>\<open>rebind\<close>, the joins of a list of bindings, the
  three warnings, the invariant, the effect of a toggle on the bindings, and whether a
  listener is registered.\<close>

definition newBinding :: "jsval list \<Rightarrow> 'cb \<Rightarrow> jsstring \<Rightarrow> bool \<Rightarrow> 'cb keyBinding" where
  "newBinding ks cb desc en = \<lparr>keys = ks, callback = cb, description = desc, enabled = en\<rparr>"

definition joins :: "host \<Rightarrow> 'cb keyBinding list \<Rightarrow> jsstring list" where
  "joins h bs = map (keysJoinOf h) bs"

definition alreadyRegistered :: "host \<Rightarrow> jsval list \<Rightarrow> jsstring" where
  "alreadyRegistered h ks = js ''Shortcut '' @ quoted (joinKeys h ks) @ js '' is already registered''"

definition notRegistered :: "host \<Rightarrow> jsval list \<Rightarrow> jsstring" where
  "notRegistered h ks = js ''Shortcut '' @ quoted (joinKeys h ks) @ js '' is not registered''"

definition cannotToggle :: "host \<Rightarrow> bool \<Rightarrow> jsval list \<Rightarrow> jsstring" where
  "cannotToggle h en ks =
     js ''Shortcut '' @ quoted (joinKeys h ks) @ js '' is not registered and cannot be ''
       @ (if en then js ''enabled'' else js ''disabled'')"

definition uniqueJoins :: "host \<Rightarrow> 'cb capynaut \<Rightarrow> bool" where
  "uniqueJoins h st = distinct (joins h (bindings st))"

definition toggled ::
  "host \<Rightarrow> bool \<Rightarrow> jsval list list \<Rightarrow> 'cb keyBinding list \<Rightarrow> 'cb keyBinding list" where
  "toggled h en seqs bs =
     map (\<lambda>b. if keysJoinOf h b \<in> set (map (joinKeys h) seqs) then b\<lparr>enabled := en\<rparr> else b) bs"

definition listening :: "'cb capynaut \<Rightarrow> bool" where
  "listening st = (keydownListener st \<or> clickListener st)"

subsection \<open>Example registries\<close>

text \<open>Registries built by public calls: \<^verbatim>\<open>ctrl+s\<close> registered disabled, then \<^verbatim>\<open>s+ctrl\<close>
  enabled, then a duplicate of the latter; the same two both enabled; \<^verbatim>\<open>ctrl+v\<close> alone;
  and the bare modifier \<^verbatim>\<open>ctrl\<close> alone.\<close>

definition demo :: "nat capynaut" where
  "demo = run asciiHost new
            [Bind (js ''ctrl+s'') 1 (js ''first'') False,
             Bind (js ''s+ctrl'') 2 (js ''second'') True,
             Bind (js ''S + Ctrl'') 3 (js ''third'') True]"

definition twin :: "nat capynaut" where
  "twin = run asciiHost new
            [Bind (js ''ctrl+s'') 1 (js ''first'') True,
             Bind (js ''s+ctrl'') 2 (js ''second'') True]"

definition pasteOnly :: "nat capynaut" where
  "pasteOnly = run asciiHost new [Bind (js ''ctrl+v'') 1 (js ''paste'') True]"

definition ctrlOnly :: "nat capynaut" where
  "ctrlOnly = run asciiHost new [Bind (js ''ctrl'') 1 (js ''Control'') True]"

section \<open>Evaluation\<close>

text \<open>The definitions to unfold when a closed term is evaluated by the simplifier.\<close>

lemmas string_evals = js_def trim_def isWhiteSpace_def includesChar_def plusSign_def bar_def
  quoted_def asciiLower_def nativeText_def asciiHost_def ToString_def joinKeys_def sortJoinKeys_def

lemmas parse_evals = KEY_ALIAS_table_def objectPrototypeNames_def KEY_ALIAS_def aliasOr_def
  partStep_def trimOf_def mergeStep_def notDefinedCorrectly_def parseParts_def keyPartsOf_def
  parseKeys_def

lemmas spec_evals = specAlias_def alternationParts_def fixedParts_def specPrefix_def
  specAlternatives_def specParse_def ownNamesOnly_def groupExpansion_def lastGroupParse_def
  modifierNames_def coveredByModifier_def

lemmas registry_evals = new_def keysEmptyError_def bindStep_def bind_def unbindStep_def unbind_def
  rebindStep_def rebind_def toggleVisit_def toggleStep_def toggle_def enable_def disable_def
  setDebug_def destroy_def afterCall_def run_def

lemmas handler_evals = modifiersPressed_def noEffect_def handleKeydown_def dispatchEvent_def
  canonical_def keysJoinOf_def matches_def

section \<open>Properties of the parser\<close>

lemma split_not_Nil: "split c s \<noteq> []"
  by (induction s) (auto split: list.splits)

lemma split_without_separator: "\<not> includesChar p c \<Longrightarrow> split c p = [p]"
  by (induction p) (auto simp: includesChar_def)

lemma fold_push_alias: "fold (\<lambda>key ks. ks @ [aliasOr key]) xs acc = acc @ map aliasOr xs"
  by (induction xs arbitrary: acc) auto

lemma fold_partStep:
  "fold partStep parts (base, alts) =
     (base @ map aliasOr (fixedParts parts),
      alts @ concat (map (\<lambda>p. map aliasOr (split bar p)) (alternationParts parts)))"
  by (induction parts arbitrary: base alts)
     (auto simp: partStep_def fixedParts_def alternationParts_def fold_push_alias)

text \<open>On a name that \<^verbatim>\<open>Object.prototype\<close> does not hold, the lookup in the table is the alias
  resolution of the specification.\<close>

lemma aliasOr_own: "a \<notin> set objectPrototypeNames \<Longrightarrow> aliasOr a = JString (specAlias a)"
  by (auto simp: aliasOr_def KEY_ALIAS_def KEY_ALIAS_table_def specAlias_def js_def)

lemma aliasOr_fixedParts:
  "ownNamesOnly parts \<Longrightarrow> map aliasOr (fixedParts parts) = specPrefix parts"
  by (induction parts)
     (auto simp: ownNamesOnly_def fixedParts_def specPrefix_def split_without_separator aliasOr_own)

lemma aliasOr_alternatives:
  "list_all (\<lambda>a. a \<notin> set objectPrototypeNames) as \<Longrightarrow>
     map aliasOr as = map JString (map specAlias as)"
  by (induction as) (auto simp: aliasOr_own)

lemma aliasOr_alternationParts:
  "ownNamesOnly parts \<Longrightarrow>
     concat (map (\<lambda>p. map aliasOr (split bar p)) (alternationParts parts))
       = map JString (concat (map (\<lambda>p. map specAlias (split bar p)) (alternationParts parts)))"
  by (induction parts)
     (auto simp: ownNamesOnly_def alternationParts_def aliasOr_alternatives)

lemma fold_mergeStep_strings:
  "fold (mergeStep base) (map JString alts) (Inr acc) =
     Inr (acc @ map (\<lambda>a. base @ [JString a]) (filter (\<lambda>a. trim a \<noteq> []) alts))"
  by (induction alts arbitrary: acc) (auto simp: mergeStep_def trimOf_def)

lemma pooled_Nil_iff:
  "(\<forall>p\<in>set (alternationParts parts). split bar p = []) \<longleftrightarrow> alternationParts parts = []"
proof (cases "alternationParts parts")
  case Nil
  then show ?thesis by simp
next
  case (Cons p ps)
  then show ?thesis by (auto simp: split_not_Nil)
qed

lemma parseParts_char:
  assumes "ownNamesOnly parts"
  shows "parseParts parts =
     (if alternationParts parts \<noteq> []
      then (if specAlternatives parts = [] then Inl notDefinedCorrectly
            else Inr (map (\<lambda>a. specPrefix parts @ [JString a]) (specAlternatives parts)))
      else Inr [specPrefix parts])"
  unfolding parseParts_def fold_partStep
  by (simp add: aliasOr_fixedParts [OF assms] aliasOr_alternationParts [OF assms]
      fold_mergeStep_strings pooled_Nil_iff specAlternatives_def)

lemma alternationParts_Nil_iff:
  "alternationParts parts \<noteq> [] \<longleftrightarrow> list_ex (\<lambda>p. includesChar p bar) parts"
  by (auto simp: alternationParts_def filter_empty_conv list_ex_iff)

lemma parseKeys_own:
  "ownNamesOnly (keyPartsOf h ks) \<Longrightarrow> parseKeys h ks = specParse h ks"
  by (simp add: parseKeys_def keyPartsOf_def specParse_def parseParts_char
      alternationParts_Nil_iff Let_def)

text \<open>
  Claim C2. For every input string, \<^verbatim>\<open>#parseKeys\<close> lower-cases it, splits it on \<open>+\<close>, trims
  each part and resolves aliases; with a part that contains \<open>|\<close> it yields the prefix
  followed by each non-blank alias-resolved alternative, and throws the invalid-format
  error when no such alternative remains; otherwise it yields the one sequence of the
  alias-resolved parts. The code does so on every string none of whose parts and
  alternatives is the name of a property of \<^verbatim>\<open>Object.prototype\<close>. It does not on
  \<^verbatim>\<open>"a|constructor"\<close>: the lookup in the alias table finds the inherited function, the call of
  \<^verbatim>\<open>trim\<close> on it throws, and no key sequence is returned, where the claim has the two
  sequences \<open>a\<close> and \<open>constructor\<close>.
\<close>

theorem parseKeys_inherited_name:
  "(ownNamesOnly (keyPartsOf h ks) \<longrightarrow> parseKeys h ks = specParse h ks)
   \<and> parseKeys asciiHost (js ''a|constructor'')
       = Inl (TypeError (js ''key.trim is not a function''))
   \<and> specParse asciiHost (js ''a|constructor'')
       = Inr [[JString (js ''a'')], [JString (js ''constructor'')]]"
proof (intro conjI impI)
  assume "ownNamesOnly (keyPartsOf h ks)"
  then show "parseKeys h ks = specParse h ks" by (rule parseKeys_own)
next
  show "parseKeys asciiHost (js ''a|constructor'')
          = Inl (TypeError (js ''key.trim is not a function''))"
    by (simp add: string_evals parse_evals)
next
  show "specParse asciiHost (js ''a|constructor'')
          = Inr [[JString (js ''a'')], [JString (js ''constructor'')]]"
    by (simp add: string_evals spec_evals)
qed

theorem parseKeys_inherited_name_witness:
  "ownNamesOnly (keyPartsOf asciiHost (js ''Control + Esc|Del''))
   \<and> specParse asciiHost (js ''Control + Esc|Del'')
       = Inr [[JString (js ''ctrl''), JString (js ''escape'')],
              [JString (js ''ctrl''), JString (js ''delete'')]]
   \<and> parseKeys asciiHost (js ''Control + Esc|Del'')
       = Inr [[JString (js ''ctrl''), JString (js ''escape'')],
              [JString (js ''ctrl''), JString (js ''delete'')]]"
proof -
  have o: "ownNamesOnly (keyPartsOf asciiHost (js ''Control + Esc|Del''))"
    by (simp add: string_evals parse_evals spec_evals)
  have s: "specParse asciiHost (js ''Control + Esc|Del'')
       = Inr [[JString (js ''ctrl''), JString (js ''escape'')],
              [JString (js ''ctrl''), JString (js ''delete'')]]"
    by (simp add: string_evals spec_evals)
  from parseKeys_inherited_name [of asciiHost "js ''Control + Esc|Del''"] o
  have "parseKeys asciiHost (js ''Control + Esc|Del'') = specParse asciiHost (js ''Control + Esc|Del'')"
    by blast
  with o s show ?thesis by simp
qed

lemma map_specAlternatives:
  "map (\<lambda>a. pre @ [JString a]) (specAlternatives parts)
     = concat (map (groupExpansion pre) (alternationParts parts))"
  by (simp add: specAlternatives_def groupExpansion_def [abs_def] filter_concat map_concat comp_def)

text \<open>
  Claim C6, as stated: with several alternation groups only the last one governs the
  expansion. It fails on \<^verbatim>\<open>"a|b+c|d"\<close>: the alternatives \<open>a\<close> and \<open>b\<close> of the first group are
  expanded as well.
\<close>

theorem parseKeys_last_group_counterexample:
  "parseKeys asciiHost (js ''a|b+c|d'')
     = Inr [[JString (js ''a'')], [JString (js ''b'')], [JString (js ''c'')], [JString (js ''d'')]]
   \<and> lastGroupParse asciiHost (js ''a|b+c|d'') = Inr [[JString (js ''c'')], [JString (js ''d'')]]
   \<and> parseKeys asciiHost (js ''a|b+c|d'') \<noteq> lastGroupParse asciiHost (js ''a|b+c|d'')"
proof -
  have a: "parseKeys asciiHost (js ''a|b+c|d'')
     = Inr [[JString (js ''a'')], [JString (js ''b'')], [JString (js ''c'')], [JString (js ''d'')]]"
    by (simp add: string_evals parse_evals)
  have b: "lastGroupParse asciiHost (js ''a|b+c|d'')
     = Inr [[JString (js ''c'')], [JString (js ''d'')]]"
    by (simp add: string_evals spec_evals keyPartsOf_def)
  show ?thesis unfolding a b by (simp add: js_def)
qed

text \<open>
  Claim C6, amended: every alternation group governs the expansion. On a string none of
  whose parts and alternatives is the name of a property of \<^verbatim>\<open>Object.prototype\<close>, the result
  is the concatenation, in the order of the groups, of the expansions of each group: its
  non-blank alias-resolved alternatives, each appended to the shared prefix of the
  alias-resolved parts without \<open>|\<close>.
\<close>

theorem parseKeys_all_groups:
  assumes "ownNamesOnly (keyPartsOf h ks)"
  shows "parseKeys h ks =
     (let parts = keyPartsOf h ks;
          seqs = concat (map (groupExpansion (specPrefix parts)) (alternationParts parts))
      in if alternationParts parts = [] then Inr [specPrefix parts]
         else if seqs = [] then Inl notDefinedCorrectly
         else Inr seqs)"
proof -
  define parts where "parts = keyPartsOf h ks"
  have m: "map (\<lambda>a. specPrefix parts @ [JString a]) (specAlternatives parts)
             = concat (map (groupExpansion (specPrefix parts)) (alternationParts parts))"
    by (rule map_specAlternatives)
  have e: "specAlternatives parts = [] \<longleftrightarrow>
      concat (map (groupExpansion (specPrefix parts)) (alternationParts parts)) = []"
    unfolding m [symmetric] by simp
  from assms have o: "ownNamesOnly parts" by (simp add: parts_def)
  have "parseKeys h ks = parseParts parts" by (simp add: parseKeys_def parts_def)
  also have "\<dots> =
     (if alternationParts parts \<noteq> []
      then (if specAlternatives parts = [] then Inl notDefinedCorrectly
            else Inr (map (\<lambda>a. specPrefix parts @ [JString a]) (specAlternatives parts)))
      else Inr [specPrefix parts])"
    by (rule parseParts_char [OF o])
  also have "\<dots> =
     (if alternationParts parts = [] then Inr [specPrefix parts]
      else if concat (map (groupExpansion (specPrefix parts)) (alternationParts parts)) = []
           then Inl notDefinedCorrectly
           else Inr (concat (map (groupExpansion (specPrefix parts)) (alternationParts parts))))"
    unfolding m e by (cases "alternationParts parts = []") simp_all
  finally show ?thesis unfolding Let_def parts_def .
qed

theorem parseKeys_all_groups_witness:
  "ownNamesOnly (keyPartsOf asciiHost (js ''Control+Esc|Del+x|space|y''))
   \<and> parseKeys asciiHost (js ''Control+Esc|Del+x|space|y'')
       = Inr [[JString (js ''ctrl''), JString (js ''escape'')],
              [JString (js ''ctrl''), JString (js ''delete'')],
              [JString (js ''ctrl''), JString (js ''x'')],
              [JString (js ''ctrl''), JString (js ''y'')]]"
proof -
  have o: "ownNamesOnly (keyPartsOf asciiHost (js ''Control+Esc|Del+x|space|y''))"
    by (simp add: string_evals parse_evals spec_evals)
  have v: "(let parts = keyPartsOf asciiHost (js ''Control+Esc|Del+x|space|y'');
          seqs = concat (map (groupExpansion (specPrefix parts)) (alternationParts parts))
      in if alternationParts parts = [] then Inr [specPrefix parts]
         else if seqs = [] then Inl notDefinedCorrectly
         else Inr seqs)
       = Inr [[JString (js ''ctrl''), JString (js ''escape'')],
              [JString (js ''ctrl''), JString (js ''delete'')],
              [JString (js ''ctrl''), JString (js ''x'')],
              [JString (js ''ctrl''), JString (js ''y'')]]"
    by (simp add: string_evals spec_evals keyPartsOf_def)
  from parseKeys_all_groups [OF o] v o show ?thesis by simp
qed

section \<open>Properties of the handler\<close>

lemma forBindings_find:
  "forBindings h pressed bs eff =
     (case find (matches h pressed) bs of
        None \<Rightarrow> eff
      | Some b \<Rightarrow> eff\<lparr>defaultPrevented := True, invoked := invoked eff @ [callback b]\<rparr>)"
  by (induction bs) (auto simp: matches_def canonical_def Let_def)

lemma handleKeydown_find:
  "pressedOf h ev = Some pressed \<Longrightarrow>
     invoked (handleKeydown h st ev) =
       (case find (matches h pressed) (bindings st) of None \<Rightarrow> [] | Some b \<Rightarrow> [callback b])
     \<and> defaultPrevented (handleKeydown h st ev) = (find (matches h pressed) (bindings st) \<noteq> None)"
  by (simp add: handleKeydown_def forBindings_find noEffect_def Let_def split: option.splits)

text \<open>
  Claim C1. For every keyboard or mouse event the handler goes through the bindings in
  registration order and invokes the callback of the first binding that is enabled and
  whose sorted, joined keys equal the sorted, joined pressed tokens; it suppresses the
  default action of that event and stops. At most one callback is invoked per event, and
  a disabled binding with equal keys is passed over for a later enabled one. When no
  binding matches, nothing is invoked and the default action is left alone.
\<close>

theorem handleKeydown_first_match:
  assumes "pressedOf h ev = Some pressed"
  shows "((\<exists>i<length (bindings st).
             matches h pressed (bindings st ! i)
             \<and> (\<forall>j<i. \<not> matches h pressed (bindings st ! j))
             \<and> invoked (handleKeydown h st ev) = [callback (bindings st ! i)]
             \<and> defaultPrevented (handleKeydown h st ev))
          \<or> ((\<forall>b\<in>set (bindings st). \<not> matches h pressed b)
             \<and> invoked (handleKeydown h st ev) = []
             \<and> \<not> defaultPrevented (handleKeydown h st ev)))
         \<and> length (invoked (handleKeydown h st ev)) \<le> 1"
proof (cases "find (matches h pressed) (bindings st)")
  case None
  then have "\<forall>b\<in>set (bindings st). \<not> matches h pressed b"
    by (simp add: find_None_iff)
  with None handleKeydown_find [OF assms, of st] show ?thesis by simp
next
  case (Some b)
  then obtain i where i: "i < length (bindings st)" "matches h pressed (bindings st ! i)"
      "b = bindings st ! i" "\<forall>j<i. \<not> matches h pressed (bindings st ! j)"
    unfolding find_Some_iff by blast
  from Some handleKeydown_find [OF assms, of st]
  have "invoked (handleKeydown h st ev) = [callback (bindings st ! i)]"
       "defaultPrevented (handleKeydown h st ev)"
    using i(3) by simp_all
  with i show ?thesis by auto
qed

lemma demo_bindings: "bindings demo =
   [\<lparr>keys = [JString (js ''ctrl''), JString (js ''s'')], callback = 1,
      description = js ''first'', enabled = False\<rparr>,
    \<lparr>keys = [JString (js ''s''), JString (js ''ctrl'')], callback = 2,
      description = js ''second'', enabled = True\<rparr>]"
  by (simp add: demo_def string_evals parse_evals registry_evals)

theorem handleKeydown_first_match_witness:
  "pressedOf asciiHost (KeyboardEvent True False False False (js ''S'')) = Some [js ''ctrl'', js ''s'']
   \<and> invoked (handleKeydown asciiHost demo (KeyboardEvent True False False False (js ''S''))) = [2]
   \<and> defaultPrevented (handleKeydown asciiHost demo (KeyboardEvent True False False False (js ''S'')))"
proof -
  let ?ev = "KeyboardEvent True False False False (js ''S'')"
  let ?p = "[js ''ctrl'', js ''s'']"
  have p: "pressedOf asciiHost ?ev = Some ?p"
    by (simp add: string_evals parse_evals handler_evals)
  have m0: "\<not> matches asciiHost ?p (bindings demo ! 0)"
    unfolding demo_bindings by (simp add: matches_def)
  have m1: "matches asciiHost ?p (bindings demo ! 1)"
    unfolding demo_bindings by (simp add: string_evals handler_evals)
  have len: "length (bindings demo) = 2" unfolding demo_bindings by simp
  have m1': "bindings demo ! 1 \<in> set (bindings demo)"
    unfolding demo_bindings by simp
  have cb: "callback (bindings demo ! 1) = 2" unfolding demo_bindings by simp
  from handleKeydown_first_match [OF p, of demo]
  have "(\<exists>i<length (bindings demo).
             matches asciiHost ?p (bindings demo ! i)
             \<and> (\<forall>j<i. \<not> matches asciiHost ?p (bindings demo ! j))
             \<and> invoked (handleKeydown asciiHost demo ?ev) = [callback (bindings demo ! i)]
             \<and> defaultPrevented (handleKeydown asciiHost demo ?ev))
          \<or> ((\<forall>b\<in>set (bindings demo). \<not> matches asciiHost ?p b)
             \<and> invoked (handleKeydown asciiHost demo ?ev) = []
             \<and> \<not> defaultPrevented (handleKeydown asciiHost demo ?ev))"
    by (rule conjunct1)
  then show ?thesis
  proof (elim disjE exE conjE)
    fix i
    assume i: "i < length (bindings demo)" "matches asciiHost ?p (bindings demo ! i)"
      and r: "invoked (handleKeydown asciiHost demo ?ev) = [callback (bindings demo ! i)]"
             "defaultPrevented (handleKeydown asciiHost demo ?ev)"
    from i(1) len have "i = 0 \<or> i = 1" by auto
    with i(2) m0 have "i = 1" by auto
    with r cb p show ?thesis by simp
  next
    assume "\<forall>b\<in>set (bindings demo). \<not> matches asciiHost ?p b"
    with m1 m1' show ?thesis by blast
  qed
qed

text \<open>
  Claim C5. The pressed tokens are \<open>ctrl\<close>, \<open>alt\<close>, \<open>shift\<close>, \<open>meta\<close> for the active modifier
  flags, then \<open>click\<close> for a pointer event or the lower-cased key identifier for a key
  event, unless a modifier name covers that identifier. The code leaves the identifier
  out whenever the alias table has a value under it, also when that value is no modifier
  name. On a key event whose \<^verbatim>\<open>key\<close> is \<^verbatim>\<open>"Esc"\<close> with no modifier held nothing is pushed, where
  the claim has the token \<open>esc\<close>: debug mode prints an empty line, and with the control
  key held the event invokes a binding of the bare modifier \<open>ctrl\<close>.
\<close>

theorem pressedOf_alias_entry_dropped:
  "pressedOf asciiHost (KeyboardEvent False False False False (js ''Esc'')) = Some []
   \<and> specPressedOf asciiHost (KeyboardEvent False False False False (js ''Esc'')) = Some [js ''esc'']
   \<and> KEY_ALIAS (js ''esc'') = Some (JString (js ''escape''))
   \<and> logged (handleKeydown asciiHost (setDebug (new :: nat capynaut) True)
                 (KeyboardEvent False False False False (js ''Esc''))) = [js '''']
   \<and> pressedOf asciiHost (KeyboardEvent True False False False (js ''Esc'')) = Some [js ''ctrl'']
   \<and> specPressedOf asciiHost (KeyboardEvent True False False False (js ''Esc''))
       = Some [js ''ctrl'', js ''esc'']
   \<and> invoked (handleKeydown asciiHost ctrlOnly (KeyboardEvent True False False False (js ''Esc'')))
       = [1]"
  by (simp add: ctrlOnly_def string_evals parse_evals spec_evals registry_evals handler_evals)

section \<open>Properties of the registry operations\<close>

lemma length_filter_less_iff:
  "length (filter P xs) < length xs \<longleftrightarrow> (\<exists>x\<in>set xs. \<not> P x)"
  by (induction xs) (auto simp: less_Suc_eq_le)

lemma length_filter_eq_iff:
  "length (filter P xs) = length xs \<longleftrightarrow> (\<forall>x\<in>set xs. P x)"
  using length_filter_less_iff [of P xs] length_filter_le [of P xs] by auto

lemma in_joins_iff: "j \<in> set (joins h bs) \<longleftrightarrow> (\<exists>b\<in>set bs. keysJoinOf h b = j)"
  by (induction bs) (auto simp: joins_def)

lemma list_ex_joins:
  "list_ex (\<lambda>binding. joinKeys h (keys binding) = j) bs \<longleftrightarrow> j \<in> set (joins h bs)"
  by (induction bs) (auto simp: joins_def keysJoinOf_def)

lemma filter_joins:
  "filter (\<lambda>binding. joinKeys h (keys binding) \<noteq> j) bs = filter (\<lambda>b. keysJoinOf h b \<noteq> j) bs"
  by (simp add: keysJoinOf_def)

lemma twin_bindings: "bindings twin =
   [\<lparr>keys = [JString (js ''ctrl''), JString (js ''s'')], callback = 1,
      description = js ''first'', enabled = True\<rparr>,
    \<lparr>keys = [JString (js ''s''), JString (js ''ctrl'')], callback = 2,
      description = js ''second'', enabled = True\<rparr>]"
  by (simp add: twin_def string_evals parse_evals registry_evals)

lemma twin_joins: "joins asciiHost (bindings twin) = [js ''ctrl+s'', js ''s+ctrl'']"
  unfolding twin_bindings by (simp add: joins_def keysJoinOf_def string_evals)

lemma bindStep_eq:
  "bindStep h cb d e ks (bs, ws) =
     (if joinKeys h ks \<in> set (joins h bs)
      then (bs, ws @ [js ''Shortcut '' @ quoted (joinKeys h ks) @ js '' is already registered''])
      else (bs @ [newBinding ks cb d e], ws))"
  by (simp add: bindStep_def list_ex_joins newBinding_def Let_def)

lemma unbindStep_eq:
  "unbindStep h ks (bs, ws) =
     (filter (\<lambda>b. keysJoinOf h b \<noteq> joinKeys h ks) bs,
      if joinKeys h ks \<in> set (joins h bs) then ws
      else ws @ [js ''Shortcut '' @ quoted (joinKeys h ks) @ js '' is not registered''])"
  by (auto simp: unbindStep_def filter_joins Let_def length_filter_eq_iff in_joins_iff)

lemma rebindStep_eq:
  "rebindStep h cb d e ks (bs, ws) =
     (if joinKeys h ks \<in> set (joins h bs)
      then (filter (\<lambda>b. keysJoinOf h b \<noteq> joinKeys h ks) bs @ [newBinding ks cb d e], ws)
      else (bs, ws @ [js ''Shortcut '' @ quoted (joinKeys h ks) @ js '' is not registered'']))"
proof -
  have f: "filter (\<lambda>binding. joinKeys h ks \<noteq> joinKeys h (keys binding)) bs
             = filter (\<lambda>b. keysJoinOf h b \<noteq> joinKeys h ks) bs"
    by (rule filter_cong) (auto simp: keysJoinOf_def)
  show ?thesis
  proof (cases "joinKeys h ks \<in> set (joins h bs)")
    case True
    then have "length (filter (\<lambda>b. keysJoinOf h b \<noteq> joinKeys h ks) bs) < length bs"
      by (auto simp: length_filter_less_iff in_joins_iff)
    with True show ?thesis
      by (simp add: rebindStep_def f Let_def newBinding_def)
  next
    case False
    then have all: "\<forall>b\<in>set bs. keysJoinOf h b \<noteq> joinKeys h ks"
      by (auto simp: in_joins_iff)
    then have "filter (\<lambda>b. keysJoinOf h b \<noteq> joinKeys h ks) bs = bs"
      by simp
    with False show ?thesis
      by (simp add: rebindStep_def f Let_def)
  qed
qed

lemma fold_toggleVisit:
  "fold (toggleVisit h j en) bs (visited, found) =
     (visited @ map (\<lambda>b. if keysJoinOf h b = j then b\<lparr>enabled := en\<rparr> else b) bs,
      found \<or> j \<in> set (joins h bs))"
  by (induction bs arbitrary: visited found)
     (auto simp: toggleVisit_def joins_def keysJoinOf_def)

lemma toggleStep_eq:
  "toggleStep h en ks (bs, ws) =
     (map (\<lambda>b. if keysJoinOf h b = joinKeys h ks then b\<lparr>enabled := en\<rparr> else b) bs,
      if joinKeys h ks \<in> set (joins h bs) then ws
      else ws @ [js ''Shortcut '' @ quoted (joinKeys h ks) @ js '' is not registered and cannot be ''
                  @ (if en then js ''enabled'' else js ''disabled'')])"
  by (simp add: toggleStep_def fold_toggleVisit Let_def)

lemma joins_append [simp]: "joins h (xs @ ys) = joins h xs @ joins h ys"
  by (simp add: joins_def)

lemma joins_newBinding [simp]: "joins h [newBinding ks cb d e] = [joinKeys h ks]"
  by (simp add: joins_def keysJoinOf_def newBinding_def)

lemma fold_bindStep_dup:
  "\<forall>s\<in>set seqs. joinKeys h s \<in> set (joins h bs) \<Longrightarrow>
     fold (bindStep h cb d e) seqs (bs, ws) = (bs, ws @ map (alreadyRegistered h) seqs)"
  by (induction seqs arbitrary: ws) (simp_all add: bindStep_eq alreadyRegistered_def)

lemma fold_bindStep_joins:
  "set (joins h (fst (fold (bindStep h cb d e) seqs (bs, ws))))
     = set (joins h bs) \<union> set (map (joinKeys h) seqs)"
  by (induction seqs arbitrary: bs ws) (auto simp: bindStep_eq)

lemma fold_bindStep_distinct:
  "distinct (joins h bs) \<Longrightarrow> distinct (joins h (fst (fold (bindStep h cb d e) seqs (bs, ws))))"
  by (induction seqs arbitrary: bs ws) (auto simp: bindStep_eq)

lemma fold_bindStep_added:
  "\<exists>added. fst (fold (bindStep h cb d e) seqs (bs, ws)) = bs @ added
     \<and> (\<forall>b\<in>set added. keysJoinOf h b \<notin> set (joins h bs) \<and> keys b \<in> set seqs
            \<and> callback b = cb \<and> description b = d \<and> enabled b = e)
     \<and> length added + length (snd (fold (bindStep h cb d e) seqs (bs, ws)))
          = length seqs + length ws"
proof (induction seqs arbitrary: bs ws)
  case Nil
  then show ?case by simp
next
  case (Cons s seqs)
  show ?case
  proof (cases "joinKeys h s \<in> set (joins h bs)")
    case True
    from Cons.IH [of bs "ws @ [alreadyRegistered h s]"] True show ?thesis
      by (auto simp: bindStep_eq alreadyRegistered_def)
  next
    case False
    from Cons.IH [of "bs @ [newBinding s cb d e]" ws]
    obtain added where a: "fst (fold (bindStep h cb d e) seqs (bs @ [newBinding s cb d e], ws))
          = (bs @ [newBinding s cb d e]) @ added"
      "\<forall>b\<in>set added. keysJoinOf h b \<notin> set (joins h (bs @ [newBinding s cb d e])) \<and> keys b \<in> set seqs
            \<and> callback b = cb \<and> description b = d \<and> enabled b = e"
      "length added + length (snd (fold (bindStep h cb d e) seqs (bs @ [newBinding s cb d e], ws)))
          = length seqs + length ws"
      by blast
    have n: "keysJoinOf h (newBinding s cb d e) = joinKeys h s" "keys (newBinding s cb d e) = s"
      "callback (newBinding s cb d e) = cb" "description (newBinding s cb d e) = d"
      "enabled (newBinding s cb d e) = e"
      by (simp_all add: keysJoinOf_def newBinding_def)
    show ?thesis
    proof (intro exI [of _ "newBinding s cb d e # added"] conjI)
      show "fst (fold (bindStep h cb d e) (s # seqs) (bs, ws)) = bs @ newBinding s cb d e # added"
        using False a(1) by (simp add: bindStep_eq)
      show "\<forall>b\<in>set (newBinding s cb d e # added).
              keysJoinOf h b \<notin> set (joins h bs) \<and> keys b \<in> set (s # seqs)
                \<and> callback b = cb \<and> description b = d \<and> enabled b = e"
        using False a(2) n by auto
      show "length (newBinding s cb d e # added)
              + length (snd (fold (bindStep h cb d e) (s # seqs) (bs, ws)))
            = length (s # seqs) + length ws"
        using False a(3) by (simp add: bindStep_eq)
    qed
  qed
qed

lemma fold_unbindStep_fst:
  "fst (fold (unbindStep h) seqs (bs, ws))
     = filter (\<lambda>b. keysJoinOf h b \<notin> set (map (joinKeys h) seqs)) bs"
  by (induction seqs arbitrary: bs ws) (auto simp: unbindStep_eq intro: filter_cong)

lemma joins_toggled [simp]:
  "joins h (map (\<lambda>b. if keysJoinOf h b = j then b\<lparr>enabled := en\<rparr> else b) bs) = joins h bs"
  by (induction bs) (auto simp: joins_def keysJoinOf_def)

lemma fold_toggleStep:
  "fold (toggleStep h en) seqs (bs, ws) =
     (map (\<lambda>b. if keysJoinOf h b \<in> set (map (joinKeys h) seqs) then b\<lparr>enabled := en\<rparr> else b) bs,
      ws @ map (cannotToggle h en) (filter (\<lambda>s. joinKeys h s \<notin> set (joins h bs)) seqs))"
proof (induction seqs arbitrary: bs ws)
  case Nil
  then show ?case by simp
next
  case (Cons s seqs)
  have k: "keysJoinOf h (b\<lparr>enabled := en\<rparr>) = keysJoinOf h b" for b :: "'a keyBinding"
    by (simp add: keysJoinOf_def)
  show ?case
    by (simp add: toggleStep_eq Cons.IH cannotToggle_def k comp_def)
qed

lemma joins_Nil [simp]: "joins h [] = []"
  by (simp add: joins_def)

lemma distinct_joins_filter: "distinct (joins h bs) \<Longrightarrow> distinct (joins h (filter P bs))"
  by (simp add: joins_def distinct_map_filter)

lemma set_joins_filter: "set (joins h (filter P bs)) = keysJoinOf h ` {b \<in> set bs. P b}"
  by (simp add: joins_def)

lemma fold_unbindStep_distinct:
  "distinct (joins h bs) \<Longrightarrow> distinct (joins h (fst (fold (unbindStep h) seqs (bs, ws))))"
  unfolding fold_unbindStep_fst by (rule distinct_joins_filter)

lemma fold_rebindStep_distinct:
  "distinct (joins h bs) \<Longrightarrow> distinct (joins h (fst (fold (rebindStep h cb d e) seqs (bs, ws))))"
proof (induction seqs arbitrary: bs ws)
  case Nil
  then show ?case by simp
next
  case (Cons s seqs)
  have "distinct (joins h (filter (\<lambda>b. keysJoinOf h b \<noteq> joinKeys h s) bs @ [newBinding s cb d e]))"
    using Cons.prems by (auto simp: distinct_joins_filter set_joins_filter)
  with Cons show ?case
    by (simp add: rebindStep_eq)
qed

lemma fold_toggleStep_joins:
  "joins h (fst (fold (toggleStep h en) seqs (bs, ws))) = joins h bs"
  unfolding fold_toggleStep by (induction bs) (auto simp: joins_def keysJoinOf_def)

lemma fold_rebindStep_form:
  "\<exists>rs. fst (fold (rebindStep h cb d e) seqs (bs, ws))
            = filter (\<lambda>b. keysJoinOf h b \<notin> set (map (joinKeys h) seqs)) bs @ rs
        \<and> (\<forall>r\<in>set rs. keys r \<in> set seqs \<and> callback r = cb \<and> description r = d \<and> enabled r = e)
        \<and> set (joins h rs) = set (map (joinKeys h) seqs) \<inter> set (joins h bs)
        \<and> distinct (joins h rs)"
proof (induction seqs arbitrary: bs ws)
  case Nil
  then show ?case by simp
next
  case (Cons s seqs)
  let ?j = "joinKeys h s"
  let ?J = "set (map (joinKeys h) seqs)"
  let ?nb = "newBinding s cb d e"
  have n: "keysJoinOf h ?nb = ?j" "keys ?nb = s" "callback ?nb = cb" "description ?nb = d"
      "enabled ?nb = e"
    by (simp_all add: keysJoinOf_def newBinding_def)
  show ?case
  proof (cases "?j \<in> set (joins h bs)")
    case True
    let ?bs1 = "filter (\<lambda>b. keysJoinOf h b \<noteq> ?j) bs @ [?nb]"
    from Cons.IH [of ?bs1 ws]
    obtain rs where rs: "fst (fold (rebindStep h cb d e) seqs (?bs1, ws))
            = filter (\<lambda>b. keysJoinOf h b \<notin> ?J) ?bs1 @ rs"
        "\<forall>r\<in>set rs. keys r \<in> set seqs \<and> callback r = cb \<and> description r = d \<and> enabled r = e"
        "set (joins h rs) = ?J \<inter> set (joins h ?bs1)" "distinct (joins h rs)"
      by blast
    have j1: "set (joins h ?bs1) = set (joins h bs)"
      using True by (auto simp: set_joins_filter in_joins_iff)
    have f: "filter (\<lambda>b. keysJoinOf h b \<notin> ?J) ?bs1
               = filter (\<lambda>b. keysJoinOf h b \<notin> set (map (joinKeys h) (s # seqs))) bs
                   @ (if ?j \<in> ?J then [] else [?nb])"
      by (auto simp: n intro: filter_cong)
    show ?thesis
    proof (intro exI [of _ "(if ?j \<in> ?J then [] else [?nb]) @ rs"] conjI)
      show "fst (fold (rebindStep h cb d e) (s # seqs) (bs, ws))
              = filter (\<lambda>b. keysJoinOf h b \<notin> set (map (joinKeys h) (s # seqs))) bs
                  @ (if ?j \<in> ?J then [] else [?nb]) @ rs"
        using True rs(1) f by (simp add: rebindStep_eq)
      show "\<forall>r\<in>set ((if ?j \<in> ?J then [] else [?nb]) @ rs).
              keys r \<in> set (s # seqs) \<and> callback r = cb \<and> description r = d \<and> enabled r = e"
        using rs(2) n by auto
      show "set (joins h ((if ?j \<in> ?J then [] else [?nb]) @ rs))
              = set (map (joinKeys h) (s # seqs)) \<inter> set (joins h bs)"
        using rs(3) j1 True by auto
      show "distinct (joins h ((if ?j \<in> ?J then [] else [?nb]) @ rs))"
        using rs(3,4) by auto
    qed
  next
    case False
    from Cons.IH [of bs "ws @ [notRegistered h s]"]
    obtain rs where rs: "fst (fold (rebindStep h cb d e) seqs (bs, ws @ [notRegistered h s]))
            = filter (\<lambda>b. keysJoinOf h b \<notin> ?J) bs @ rs"
        "\<forall>r\<in>set rs. keys r \<in> set seqs \<and> callback r = cb \<and> description r = d \<and> enabled r = e"
        "set (joins h rs) = ?J \<inter> set (joins h bs)" "distinct (joins h rs)"
      by blast
    have f: "filter (\<lambda>b. keysJoinOf h b \<notin> set (map (joinKeys h) (s # seqs))) bs
               = filter (\<lambda>b. keysJoinOf h b \<notin> ?J) bs"
      using False by (auto simp: in_joins_iff intro: filter_cong)
    show ?thesis
    proof (intro exI [of _ rs] conjI)
      show "fst (fold (rebindStep h cb d e) (s # seqs) (bs, ws))
              = filter (\<lambda>b. keysJoinOf h b \<notin> set (map (joinKeys h) (s # seqs))) bs @ rs"
        using False rs(1) f by (simp add: rebindStep_eq notRegistered_def)
      show "\<forall>r\<in>set rs. keys r \<in> set (s # seqs) \<and> callback r = cb \<and> description r = d \<and> enabled r = e"
        using rs(2) by auto
      show "set (joins h rs) = set (map (joinKeys h) (s # seqs)) \<inter> set (joins h bs)"
        using rs(3) False by auto
      show "distinct (joins h rs)" by (rule rs(4))
    qed
  qed
qed

lemma bind_Inr:
  "trim ks \<noteq> [] \<Longrightarrow> parseKeys h ks = Inr seqs \<Longrightarrow>
     bind h st ks cb d e =
       Inr (st\<lparr>bindings := fst (fold (bindStep h cb d e) seqs (bindings st, []))\<rparr>,
            snd (fold (bindStep h cb d e) seqs (bindings st, [])))"
  by (simp add: bind_def split: prod.splits)

lemma unbind_Inr:
  "trim ks \<noteq> [] \<Longrightarrow> parseKeys h ks = Inr seqs \<Longrightarrow>
     unbind h st ks =
       Inr (st\<lparr>bindings := fst (fold (unbindStep h) seqs (bindings st, []))\<rparr>,
            snd (fold (unbindStep h) seqs (bindings st, [])))"
  by (simp add: unbind_def split: prod.splits)

lemma rebind_Inr:
  "trim ks \<noteq> [] \<Longrightarrow> parseKeys h ks = Inr seqs \<Longrightarrow>
     rebind h st ks cb d e =
       Inr (st\<lparr>bindings := fst (fold (rebindStep h cb d e) seqs (bindings st, []))\<rparr>,
            snd (fold (rebindStep h cb d e) seqs (bindings st, [])))"
  by (simp add: rebind_def split: prod.splits)

lemma toggle_Inr:
  "parseKeys h ks = Inr seqs \<Longrightarrow>
     toggle h st ks en =
       Inr (st\<lparr>bindings := fst (fold (toggleStep h en) seqs (bindings st, []))\<rparr>,
            snd (fold (toggleStep h en) seqs (bindings st, [])))"
  by (simp add: toggle_def split: prod.splits)

lemma bind_uniqueJoins: "uniqueJoins h st \<Longrightarrow> uniqueJoins h (afterCall (bind h st ks cb d e) st)"
proof (cases "trim ks = []")
  case True
  assume "uniqueJoins h st"
  with True show ?thesis by (simp add: bind_def afterCall_def)
next
  case False
  assume u: "uniqueJoins h st"
  show ?thesis
  proof (cases "parseKeys h ks")
    case (Inl err)
    with False u show ?thesis by (simp add: bind_def afterCall_def)
  next
    case (Inr seqs)
    with False u show ?thesis
      by (simp add: bind_Inr afterCall_def uniqueJoins_def fold_bindStep_distinct)
  qed
qed

lemma unbind_uniqueJoins: "uniqueJoins h st \<Longrightarrow> uniqueJoins h (afterCall (unbind h st ks) st)"
proof (cases "trim ks = []")
  case True
  assume "uniqueJoins h st"
  with True show ?thesis by (simp add: unbind_def afterCall_def)
next
  case False
  assume u: "uniqueJoins h st"
  show ?thesis
  proof (cases "parseKeys h ks")
    case (Inl err)
    with False u show ?thesis by (simp add: unbind_def afterCall_def)
  next
    case (Inr seqs)
    with False u show ?thesis
      by (simp add: unbind_Inr afterCall_def uniqueJoins_def fold_unbindStep_distinct)
  qed
qed

lemma rebind_uniqueJoins: "uniqueJoins h st \<Longrightarrow> uniqueJoins h (afterCall (rebind h st ks cb d e) st)"
proof (cases "trim ks = []")
  case True
  assume "uniqueJoins h st"
  with True show ?thesis by (simp add: rebind_def afterCall_def)
next
  case False
  assume u: "uniqueJoins h st"
  show ?thesis
  proof (cases "parseKeys h ks")
    case (Inl err)
    with False u show ?thesis by (simp add: rebind_def afterCall_def)
  next
    case (Inr seqs)
    with False u show ?thesis
      by (simp add: rebind_Inr afterCall_def uniqueJoins_def fold_rebindStep_distinct)
  qed
qed

lemma toggle_uniqueJoins: "uniqueJoins h st \<Longrightarrow> uniqueJoins h (afterCall (toggle h st ks en) st)"
proof (cases "parseKeys h ks")
  case (Inl err)
  assume "uniqueJoins h st"
  with Inl show ?thesis by (simp add: toggle_def afterCall_def)
next
  case (Inr seqs)
  assume "uniqueJoins h st"
  with Inr show ?thesis
    by (simp add: toggle_Inr afterCall_def uniqueJoins_def fold_toggleStep_joins)
qed

lemma perform_uniqueJoins: "uniqueJoins h st \<Longrightarrow> uniqueJoins h (perform h st c)"
proof (cases c)
  case (Bind ks cb d e)
  assume "uniqueJoins h st"
  with Bind show ?thesis by (simp add: bind_uniqueJoins)
next
  case (Unbind ks)
  assume "uniqueJoins h st"
  with Unbind show ?thesis by (simp add: unbind_uniqueJoins)
next
  case (Rebind ks cb d e)
  assume "uniqueJoins h st"
  with Rebind show ?thesis by (simp add: rebind_uniqueJoins)
next
  case (Enable ks)
  assume u: "uniqueJoins h st"
  show ?thesis
  proof (cases "trim ks = []")
    case True
    with u Enable show ?thesis by (simp add: enable_def afterCall_def)
  next
    case False
    with u Enable toggle_uniqueJoins [of h st ks True] show ?thesis by (simp add: enable_def)
  qed
next
  case (Disable ks)
  assume u: "uniqueJoins h st"
  show ?thesis
  proof (cases "trim ks = []")
    case True
    with u Disable show ?thesis by (simp add: disable_def afterCall_def)
  next
    case False
    with u Disable toggle_uniqueJoins [of h st ks False] show ?thesis by (simp add: disable_def)
  qed
next
  case (Debug en)
  assume "uniqueJoins h st"
  with Debug show ?thesis by (simp add: setDebug_def uniqueJoins_def)
next
  case Destroy
  then show ?thesis by (simp add: destroy_def uniqueJoins_def)
next
  case (Docs r)
  assume "uniqueJoins h st"
  with Docs show ?thesis by simp
qed

lemma run_uniqueJoins: "uniqueJoins h st \<Longrightarrow> uniqueJoins h (run h st calls)"
  unfolding run_def by (induction calls arbitrary: st) (simp_all add: perform_uniqueJoins)

lemma new_uniqueJoins: "uniqueJoins h new"
  by (simp add: uniqueJoins_def new_def)

text \<open>
  Claim C3. Starting from a freshly constructed registry, after any sequence of public
  calls no two bindings have the same \<open>+\<close>-join of their keys in parsed order. \<^verbatim>\<open>bind\<close>
  only ever appends bindings whose join was not registered, and a call all of whose
  expansions are registered returns normally with the registry as it was and one warning
  per expansion.
\<close>

theorem registry_unique_joins:
  "distinct (map (keysJoinOf h) (bindings (run h new calls)))
   \<and> (trim ks \<noteq> [] \<longrightarrow> parseKeys h ks = Inr seqs
        \<longrightarrow> (\<forall>s\<in>set seqs. joinKeys h s \<in> set (map (keysJoinOf h) (bindings st)))
        \<longrightarrow> bind h st ks cb d e = Inr (st, map (alreadyRegistered h) seqs))
   \<and> (bind h st ks cb d e = Inr (st', warns)
        \<longrightarrow> (\<exists>added. bindings st' = bindings st @ added
               \<and> (\<forall>b\<in>set added. keysJoinOf h b \<notin> set (map (keysJoinOf h) (bindings st)))))"
proof (intro conjI impI)
  show "distinct (map (keysJoinOf h) (bindings (run h new calls)))"
    using run_uniqueJoins [of h new calls, OF new_uniqueJoins]
    by (simp add: uniqueJoins_def joins_def)
next
  assume "trim ks \<noteq> []" "parseKeys h ks = Inr seqs"
    "\<forall>s\<in>set seqs. joinKeys h s \<in> set (map (keysJoinOf h) (bindings st))"
  then show "bind h st ks cb d e = Inr (st, map (alreadyRegistered h) seqs)"
    by (simp add: bind_Inr fold_bindStep_dup joins_def)
next
  assume b: "bind h st ks cb d e = Inr (st', warns)"
  then have t: "trim ks \<noteq> []" by (auto simp: bind_def split: if_splits)
  from b t obtain seqs where p: "parseKeys h ks = Inr seqs"
    by (cases "parseKeys h ks") (auto simp: bind_def)
  from b have "bindings st' = fst (fold (bindStep h cb d e) seqs (bindings st, []))"
    unfolding bind_Inr [OF t p] by auto
  with fold_bindStep_added [of h cb d e seqs "bindings st" "[]"]
  show "\<exists>added. bindings st' = bindings st @ added
               \<and> (\<forall>b\<in>set added. keysJoinOf h b \<notin> set (map (keysJoinOf h) (bindings st)))"
    by (auto simp: joins_def)
qed

theorem registry_unique_joins_witness:
  "distinct (map (keysJoinOf asciiHost) (bindings twin))
   \<and> trim (js ''S + Ctrl'') \<noteq> []
   \<and> parseKeys asciiHost (js ''S + Ctrl'') = Inr [[JString (js ''s''), JString (js ''ctrl'')]]
   \<and> joinKeys asciiHost [JString (js ''s''), JString (js ''ctrl'')]
       \<in> set (map (keysJoinOf asciiHost) (bindings twin))
   \<and> bind asciiHost twin (js ''S + Ctrl'') 3 (js ''third'') True
       = Inr (twin, [alreadyRegistered asciiHost [JString (js ''s''), JString (js ''ctrl'')]])
   \<and> (\<exists>added. bindings twin = bindings twin @ added
         \<and> (\<forall>b\<in>set added.
               keysJoinOf asciiHost b \<notin> set (map (keysJoinOf asciiHost) (bindings twin))))"
proof -
  let ?seq = "[JString (js ''s''), JString (js ''ctrl'')]"
  note t = registry_unique_joins [where h = asciiHost
      and calls = "[Bind (js ''ctrl+s'') (1::nat) (js ''first'') True,
                    Bind (js ''s+ctrl'') 2 (js ''second'') True]"
      and ks = "js ''S + Ctrl''" and seqs = "[?seq]" and st = twin and cb = 3
      and d = "js ''third''" and e = True and st' = twin
      and warns = "[alreadyRegistered asciiHost ?seq]", folded twin_def]
  have h1: "trim (js ''S + Ctrl'') \<noteq> []" by (simp add: string_evals)
  have h2: "parseKeys asciiHost (js ''S + Ctrl'') = Inr [?seq]"
    by (simp add: string_evals parse_evals)
  have h3: "joinKeys asciiHost ?seq \<in> set (map (keysJoinOf asciiHost) (bindings twin))"
    using twin_joins by (simp add: joins_def string_evals)
  have h3': "\<forall>s\<in>set [?seq]. joinKeys asciiHost s \<in> set (map (keysJoinOf asciiHost) (bindings twin))"
    using h3 by simp
  from t have c1: "distinct (map (keysJoinOf asciiHost) (bindings twin))" by (rule conjunct1)
  from t h1 h2 h3' have c2: "bind asciiHost twin (js ''S + Ctrl'') 3 (js ''third'') True
      = Inr (twin, [alreadyRegistered asciiHost ?seq])" by simp
  from t c2 have c3: "\<exists>added. bindings twin = bindings twin @ added
         \<and> (\<forall>b\<in>set added.
               keysJoinOf asciiHost b \<notin> set (map (keysJoinOf asciiHost) (bindings twin)))"
    by blast
  show ?thesis by (intro conjI c1 h1 h2 h3 c2 c3)
qed

lemma fold_bindStep_keeps:
  "w \<in> set ws \<Longrightarrow> w \<in> set (snd (fold (bindStep h cb d e) seqs (bs, ws)))"
  by (induction seqs arbitrary: bs ws) (simp_all add: bindStep_eq)

lemma fold_bindStep_warns:
  "s \<in> set seqs \<Longrightarrow> joinKeys h s \<in> set (joins h bs) \<Longrightarrow>
     alreadyRegistered h s \<in> set (snd (fold (bindStep h cb d e) seqs (bs, ws)))"
proof (induction seqs arbitrary: bs ws)
  case Nil
  then show ?case by simp
next
  case (Cons t seqs)
  show ?case
  proof (cases "s = t")
    case True
    with Cons.prems(2) fold_bindStep_keeps [of "alreadyRegistered h t" "ws @ [alreadyRegistered h t]"]
    show ?thesis
      by (simp add: bindStep_eq alreadyRegistered_def)
  next
    case False
    with Cons.prems have "s \<in> set seqs" by simp
    moreover have "joinKeys h s \<in> set (joins h (bs @ [newBinding t cb d e]))"
      using Cons.prems(2) by simp
    ultimately show ?thesis
      using Cons.IH [of bs "ws @ [alreadyRegistered h t]"] Cons.IH [of "bs @ [newBinding t cb d e]" ws]
        Cons.prems(2)
      by (auto simp: bindStep_eq alreadyRegistered_def)
  qed
qed

text \<open>
  Claim C7. A \<^verbatim>\<open>bind\<close> with valid arguments whose specification parses returns normally; it
  keeps the registered bindings and appends new ones with the given callback,
  description and flag; every expansion whose join was registered leaves a warning and
  every other expansion ends up registered, one outcome per expansion. On the same
  arguments \<^verbatim>\<open>unbind\<close>, \<^verbatim>\<open>rebind\<close>, \<^verbatim>\<open>enable\<close> and \<^verbatim>\<open>disable\<close> return normally too, whatever
  is registered.
\<close>

theorem bind_expansions_independent:
  assumes "trim ks \<noteq> []" and "parseKeys h ks = Inr seqs"
  shows "\<exists>st' warns added.
           bind h st ks cb d e = Inr (st', warns)
           \<and> bindings st' = bindings st @ added
           \<and> (\<forall>b\<in>set added. keysJoinOf h b \<notin> set (joins h (bindings st)) \<and> keys b \<in> set seqs
                  \<and> callback b = cb \<and> description b = d \<and> enabled b = e)
           \<and> (\<forall>s\<in>set seqs. if joinKeys h s \<in> set (joins h (bindings st))
                  then alreadyRegistered h s \<in> set warns
                  else joinKeys h s \<in> set (joins h added))
           \<and> length added + length warns = length seqs
           \<and> (\<exists>r. unbind h st ks = Inr r) \<and> (\<exists>r. rebind h st ks cb d e = Inr r)
           \<and> (\<exists>r. enable h st ks = Inr r) \<and> (\<exists>r. disable h st ks = Inr r)"
proof -
  let ?res = "fold (bindStep h cb d e) seqs (bindings st, [])"
  from fold_bindStep_added [of h cb d e seqs "bindings st" "[]"]
  obtain added where a: "fst ?res = bindings st @ added"
      "\<forall>b\<in>set added. keysJoinOf h b \<notin> set (joins h (bindings st)) \<and> keys b \<in> set seqs
            \<and> callback b = cb \<and> description b = d \<and> enabled b = e"
      "length added + length (snd ?res) = length seqs"
    by auto
  have j: "set (joins h (fst ?res)) = set (joins h (bindings st)) \<union> set (map (joinKeys h) seqs)"
    by (rule fold_bindStep_joins)
  have w: "\<forall>s\<in>set seqs. if joinKeys h s \<in> set (joins h (bindings st))
                  then alreadyRegistered h s \<in> set (snd ?res)
                  else joinKeys h s \<in> set (joins h added)"
  proof
    fix s assume s: "s \<in> set seqs"
    show "if joinKeys h s \<in> set (joins h (bindings st))
                  then alreadyRegistered h s \<in> set (snd ?res)
                  else joinKeys h s \<in> set (joins h added)"
    proof (cases "joinKeys h s \<in> set (joins h (bindings st))")
      case True
      with s show ?thesis by (simp add: fold_bindStep_warns)
    next
      case False
      from s have "joinKeys h s \<in> set (joins h (fst ?res))" unfolding j by simp
      with False show ?thesis unfolding a(1) by simp
    qed
  qed
  have "bind h st ks cb d e = Inr (st\<lparr>bindings := fst ?res\<rparr>, snd ?res)"
    by (rule bind_Inr [OF assms])
  moreover have "bindings (st\<lparr>bindings := fst ?res\<rparr>) = bindings st @ added"
    using a(1) by simp
  moreover have "\<exists>r. unbind h st ks = Inr r" by (simp add: unbind_Inr [OF assms])
  moreover have "\<exists>r. rebind h st ks cb d e = Inr r" by (simp add: rebind_Inr [OF assms])
  moreover have "\<exists>r. enable h st ks = Inr r"
    using assms by (simp add: enable_def toggle_Inr)
  moreover have "\<exists>r. disable h st ks = Inr r"
    using assms by (simp add: disable_def toggle_Inr)
  ultimately show ?thesis using a(2,3) w by blast
qed

theorem bind_expansions_independent_witness:
  "trim (js ''ctrl+c|v'') \<noteq> []
   \<and> parseKeys asciiHost (js ''ctrl+c|v'')
       = Inr [[JString (js ''ctrl''), JString (js ''c'')], [JString (js ''ctrl''), JString (js ''v'')]]
   \<and> bind asciiHost pasteOnly (js ''ctrl+c|v'') 2 (js ''copy'') True =
       Inr (pasteOnly\<lparr>bindings := bindings pasteOnly
                @ [newBinding [JString (js ''ctrl''), JString (js ''c'')] 2 (js ''copy'') True]\<rparr>,
            [alreadyRegistered asciiHost [JString (js ''ctrl''), JString (js ''v'')]])
   \<and> (\<exists>st' warns added.
           bind asciiHost pasteOnly (js ''ctrl+c|v'') 2 (js ''copy'') True = Inr (st', warns)
           \<and> bindings st' = bindings pasteOnly @ added
           \<and> (\<forall>b\<in>set added. keysJoinOf asciiHost b \<notin> set (joins asciiHost (bindings pasteOnly))
                  \<and> keys b \<in> set [[JString (js ''ctrl''), JString (js ''c'')],
                                    [JString (js ''ctrl''), JString (js ''v'')]]
                  \<and> callback b = 2 \<and> description b = js ''copy'' \<and> enabled b = True)
           \<and> (\<forall>s\<in>set [[JString (js ''ctrl''), JString (js ''c'')],
                          [JString (js ''ctrl''), JString (js ''v'')]].
                  if joinKeys asciiHost s \<in> set (joins asciiHost (bindings pasteOnly))
                  then alreadyRegistered asciiHost s \<in> set warns
                  else joinKeys asciiHost s \<in> set (joins asciiHost added))
           \<and> length added + length warns
               = length [[JString (js ''ctrl''), JString (js ''c'')],
                         [JString (js ''ctrl''), JString (js ''v'')]]
           \<and> (\<exists>r. unbind asciiHost pasteOnly (js ''ctrl+c|v'') = Inr r)
           \<and> (\<exists>r. rebind asciiHost pasteOnly (js ''ctrl+c|v'') 2 (js ''copy'') True = Inr r)
           \<and> (\<exists>r. enable asciiHost pasteOnly (js ''ctrl+c|v'') = Inr r)
           \<and> (\<exists>r. disable asciiHost pasteOnly (js ''ctrl+c|v'') = Inr r))"
proof -
  have h1: "trim (js ''ctrl+c|v'') \<noteq> []" by (simp add: string_evals)
  have h2: "parseKeys asciiHost (js ''ctrl+c|v'')
       = Inr [[JString (js ''ctrl''), JString (js ''c'')], [JString (js ''ctrl''), JString (js ''v'')]]"
    by (simp add: string_evals parse_evals)
  have v: "bind asciiHost pasteOnly (js ''ctrl+c|v'') 2 (js ''copy'') True =
       Inr (pasteOnly\<lparr>bindings := bindings pasteOnly
                @ [newBinding [JString (js ''ctrl''), JString (js ''c'')] 2 (js ''copy'') True]\<rparr>,
            [alreadyRegistered asciiHost [JString (js ''ctrl''), JString (js ''v'')]])"
    by (simp add: pasteOnly_def newBinding_def alreadyRegistered_def
        string_evals parse_evals registry_evals)
  show ?thesis
    by (rule conjI [OF h1 conjI [OF h2 conjI [OF v
          bind_expansions_independent [OF h1 h2, of pasteOnly 2 "js ''copy''" True]]]])
qed

lemma toggled_id:
  "\<forall>s\<in>set seqs. joinKeys h s \<notin> set (joins h bs) \<Longrightarrow> toggled h en seqs bs = bs"
  unfolding toggled_def by (rule map_idI) (auto simp: in_joins_iff)

text \<open>
  Claim C9. \<^verbatim>\<open>enable\<close> and \<^verbatim>\<open>disable\<close> set the \<open>enabled\<close> field of exactly the bindings whose
  join is that of a key sequence of the specification; the number and order of the
  bindings, their keys, callbacks and descriptions, and the other fields of the instance
  are unchanged. Each key sequence without a binding leaves a warning, and when none has
  one the instance is returned as it was.
\<close>

theorem toggle_frame:
  assumes "trim ks \<noteq> []" and "parseKeys h ks = Inr seqs"
  shows "(if en then enable h st ks else disable h st ks) =
           Inr (st\<lparr>bindings := toggled h en seqs (bindings st)\<rparr>,
                map (cannotToggle h en) (filter (\<lambda>s. joinKeys h s \<notin> set (joins h (bindings st))) seqs))
         \<and> length (toggled h en seqs (bindings st)) = length (bindings st)
         \<and> (\<forall>i<length (bindings st).
               keys (toggled h en seqs (bindings st) ! i) = keys (bindings st ! i)
               \<and> callback (toggled h en seqs (bindings st) ! i) = callback (bindings st ! i)
               \<and> description (toggled h en seqs (bindings st) ! i) = description (bindings st ! i)
               \<and> enabled (toggled h en seqs (bindings st) ! i) =
                   (if keysJoinOf h (bindings st ! i) \<in> set (map (joinKeys h) seqs) then en
                    else enabled (bindings st ! i)))
         \<and> ((\<forall>s\<in>set seqs. joinKeys h s \<notin> set (joins h (bindings st))) \<longrightarrow>
               (if en then enable h st ks else disable h st ks) = Inr (st, map (cannotToggle h en) seqs))"
proof -
  have t: "toggle h st ks en =
           Inr (st\<lparr>bindings := toggled h en seqs (bindings st)\<rparr>,
                map (cannotToggle h en) (filter (\<lambda>s. joinKeys h s \<notin> set (joins h (bindings st))) seqs))"
    by (simp add: toggle_Inr [OF assms(2)] fold_toggleStep toggled_def)
  have op: "(if en then enable h st ks else disable h st ks) = toggle h st ks en"
    using assms(1) by (simp add: enable_def disable_def)
  have frame: "\<forall>i<length (bindings st).
               keys (toggled h en seqs (bindings st) ! i) = keys (bindings st ! i)
               \<and> callback (toggled h en seqs (bindings st) ! i) = callback (bindings st ! i)
               \<and> description (toggled h en seqs (bindings st) ! i) = description (bindings st ! i)
               \<and> enabled (toggled h en seqs (bindings st) ! i) =
                   (if keysJoinOf h (bindings st ! i) \<in> set (map (joinKeys h) seqs) then en
                    else enabled (bindings st ! i))"
    by (simp add: toggled_def)
  have none: "(if en then enable h st ks else disable h st ks) = Inr (st, map (cannotToggle h en) seqs)"
    if n: "\<forall>s\<in>set seqs. joinKeys h s \<notin> set (joins h (bindings st))"
  proof -
    from n have "filter (\<lambda>s. joinKeys h s \<notin> set (joins h (bindings st))) seqs = seqs"
      by simp
    with toggled_id [OF n, of en] show ?thesis unfolding op t by simp
  qed
  from t op frame none show ?thesis by (simp add: toggled_def)
qed

theorem toggle_frame_witness:
  "trim (js ''s+ctrl|x'') \<noteq> []
   \<and> parseKeys asciiHost (js ''s+ctrl|x'')
       = Inr [[JString (js ''s''), JString (js ''ctrl'')], [JString (js ''s''), JString (js ''x'')]]
   \<and> disable asciiHost twin (js ''s+ctrl|x'') =
        Inr (twin\<lparr>bindings := [bindings twin ! 0, (bindings twin ! 1)\<lparr>enabled := False\<rparr>]\<rparr>,
             [cannotToggle asciiHost False [JString (js ''s''), JString (js ''x'')]])"
proof -
  let ?seqs = "[[JString (js ''s''), JString (js ''ctrl'')], [JString (js ''s''), JString (js ''x'')]]"
  have h1: "trim (js ''s+ctrl|x'') \<noteq> []" by (simp add: string_evals)
  have h2: "parseKeys asciiHost (js ''s+ctrl|x'') = Inr ?seqs"
    by (simp add: string_evals parse_evals)
  have t: "toggled asciiHost False ?seqs (bindings twin)
             = [bindings twin ! 0, (bindings twin ! 1)\<lparr>enabled := False\<rparr>]"
    unfolding twin_bindings by (simp add: toggled_def keysJoinOf_def string_evals)
  have w: "filter (\<lambda>s. joinKeys asciiHost s \<notin> set (joins asciiHost (bindings twin))) ?seqs
             = [[JString (js ''s''), JString (js ''x'')]]"
    unfolding twin_joins by (simp add: string_evals)
  from toggle_frame [OF h1 h2, of False twin]
  have "disable asciiHost twin (js ''s+ctrl|x'') =
          Inr (twin\<lparr>bindings := toggled asciiHost False ?seqs (bindings twin)\<rparr>,
               map (cannotToggle asciiHost False)
                 (filter (\<lambda>s. joinKeys asciiHost s \<notin> set (joins asciiHost (bindings twin))) ?seqs))"
    by simp
  then show ?thesis unfolding t w using h1 h2 by simp
qed

lemma fold_rebindStep_nomatch:
  "\<forall>s\<in>set seqs. joinKeys h s \<notin> set (joins h bs) \<Longrightarrow>
     fold (rebindStep h cb d e) seqs (bs, ws) = (bs, ws @ map (notRegistered h) seqs)"
  by (induction seqs arbitrary: ws) (simp_all add: rebindStep_eq notRegistered_def)

text \<open>
  Claim C10. \<^verbatim>\<open>rebind\<close> removes the bindings whose join is that of a key sequence of the
  specification and appends their replacements, with the new callback, description and
  flag, after all the other bindings, whose relative order is kept; for a single key
  sequence with a binding the replacement is the last binding. When no key sequence has a
  binding the instance is returned as it was, with one warning per key sequence.
\<close>

theorem rebind_moves_to_end:
  assumes "trim ks \<noteq> []" and "parseKeys h ks = Inr seqs"
  shows "\<exists>rs warns.
           rebind h st ks cb d e =
             Inr (st\<lparr>bindings :=
                        filter (\<lambda>b. keysJoinOf h b \<notin> set (map (joinKeys h) seqs)) (bindings st) @ rs\<rparr>,
                  warns)
           \<and> (\<forall>r\<in>set rs. keys r \<in> set seqs \<and> callback r = cb \<and> description r = d \<and> enabled r = e)
           \<and> set (joins h rs) = set (map (joinKeys h) seqs) \<inter> set (joins h (bindings st))
           \<and> distinct (joins h rs)
           \<and> ((\<forall>s\<in>set seqs. joinKeys h s \<notin> set (joins h (bindings st))) \<longrightarrow>
                 rebind h st ks cb d e = Inr (st, map (notRegistered h) seqs))
           \<and> (\<forall>s. seqs = [s] \<and> joinKeys h s \<in> set (joins h (bindings st)) \<longrightarrow>
                 rs = [newBinding s cb d e])"
proof -
  let ?res = "fold (rebindStep h cb d e) seqs (bindings st, [])"
  from fold_rebindStep_form [of h cb d e seqs "bindings st" "[]"]
  obtain rs where rs:
      "fst ?res = filter (\<lambda>b. keysJoinOf h b \<notin> set (map (joinKeys h) seqs)) (bindings st) @ rs"
      "\<forall>r\<in>set rs. keys r \<in> set seqs \<and> callback r = cb \<and> description r = d \<and> enabled r = e"
      "set (joins h rs) = set (map (joinKeys h) seqs) \<inter> set (joins h (bindings st))"
      "distinct (joins h rs)"
    by blast
  have r: "rebind h st ks cb d e = Inr (st\<lparr>bindings := fst ?res\<rparr>, snd ?res)"
    by (rule rebind_Inr [OF assms])
  have none: "rebind h st ks cb d e = Inr (st, map (notRegistered h) seqs)"
    if "\<forall>s\<in>set seqs. joinKeys h s \<notin> set (joins h (bindings st))"
    unfolding r fold_rebindStep_nomatch [OF that] by simp
  have single: "rs = [newBinding s cb d e]"
    if s: "seqs = [s] \<and> joinKeys h s \<in> set (joins h (bindings st))" for s
  proof -
    from s have "fst ?res = filter (\<lambda>b. keysJoinOf h b \<noteq> joinKeys h s) (bindings st)
                              @ [newBinding s cb d e]"
      by (simp add: rebindStep_eq)
    with rs(1) s show ?thesis by simp
  qed
  from r rs none single show ?thesis by (intro exI [of _ rs] exI [of _ "snd ?res"]) simp
qed

theorem rebind_moves_to_end_witness:
  "trim (js ''ctrl+s'') \<noteq> []
   \<and> parseKeys asciiHost (js ''ctrl+s'') = Inr [[JString (js ''ctrl''), JString (js ''s'')]]
   \<and> joinKeys asciiHost [JString (js ''ctrl''), JString (js ''s'')]
       \<in> set (joins asciiHost (bindings twin))
   \<and> (\<exists>warns. rebind asciiHost twin (js ''ctrl+s'') 9 (js ''again'') False =
        Inr (twin\<lparr>bindings :=
               [bindings twin ! 1,
                newBinding [JString (js ''ctrl''), JString (js ''s'')] 9 (js ''again'') False]\<rparr>,
             warns))"
proof -
  let ?seq = "[JString (js ''ctrl''), JString (js ''s'')]"
  have h1: "trim (js ''ctrl+s'') \<noteq> []" by (simp add: string_evals)
  have h2: "parseKeys asciiHost (js ''ctrl+s'') = Inr [?seq]"
    by (simp add: string_evals parse_evals)
  have h3: "joinKeys asciiHost ?seq \<in> set (joins asciiHost (bindings twin))"
    unfolding twin_joins by (simp add: string_evals)
  have f: "filter (\<lambda>b. keysJoinOf asciiHost b \<notin> set (map (joinKeys asciiHost) [?seq])) (bindings twin)
             = [bindings twin ! 1]"
    unfolding twin_bindings by (simp add: keysJoinOf_def string_evals)
  from rebind_moves_to_end [OF h1 h2, of twin 9 "js ''again''" False]
  obtain rs warns where r: "rebind asciiHost twin (js ''ctrl+s'') 9 (js ''again'') False =
             Inr (twin\<lparr>bindings :=
                        filter (\<lambda>b. keysJoinOf asciiHost b \<notin> set (map (joinKeys asciiHost) [?seq]))
                          (bindings twin) @ rs\<rparr>, warns)"
      and s: "\<forall>s. [?seq] = [s] \<and> joinKeys asciiHost s \<in> set (joins asciiHost (bindings twin)) \<longrightarrow>
                 rs = [newBinding s 9 (js ''again'') False]"
    by blast
  from s h3 have "rs = [newBinding ?seq 9 (js ''again'') False]" by blast
  with r f have "\<exists>warns. rebind asciiHost twin (js ''ctrl+s'') 9 (js ''again'') False =
        Inr (twin\<lparr>bindings := [bindings twin ! 1, newBinding ?seq 9 (js ''again'') False]\<rparr>,
             warns)" by simp
  with h1 h2 h3 show ?thesis by blast
qed

lemma perform_not_listening: "\<not> listening st \<Longrightarrow> \<not> listening (perform h st c)"
proof (cases c)
  case (Bind ks cb d e)
  assume "\<not> listening st"
  with Bind show ?thesis
    by (auto simp: afterCall_def bind_def listening_def split: sum.splits prod.splits if_splits)
next
  case (Unbind ks)
  assume "\<not> listening st"
  with Unbind show ?thesis
    by (auto simp: afterCall_def unbind_def listening_def split: sum.splits prod.splits if_splits)
next
  case (Rebind ks cb d e)
  assume "\<not> listening st"
  with Rebind show ?thesis
    by (auto simp: afterCall_def rebind_def listening_def split: sum.splits prod.splits if_splits)
next
  case (Enable ks)
  assume "\<not> listening st"
  with Enable show ?thesis
    by (auto simp: afterCall_def enable_def toggle_def listening_def
        split: sum.splits prod.splits if_splits)
next
  case (Disable ks)
  assume "\<not> listening st"
  with Disable show ?thesis
    by (auto simp: afterCall_def disable_def toggle_def listening_def
        split: sum.splits prod.splits if_splits)
next
  case (Debug en)
  assume "\<not> listening st"
  with Debug show ?thesis by (simp add: setDebug_def listening_def)
next
  case Destroy
  then show ?thesis by (simp add: destroy_def listening_def)
next
  case (Docs r)
  assume "\<not> listening st"
  with Docs show ?thesis by simp
qed

lemma run_not_listening: "\<not> listening st \<Longrightarrow> \<not> listening (run h st calls)"
  unfolding run_def by (induction calls arbitrary: st) (simp_all add: perform_not_listening)

lemma dispatch_not_listening: "\<not> listening st \<Longrightarrow> dispatchEvent h st ty ev = noEffect"
  by (auto simp: dispatchEvent_def listening_def)

text \<open>
  Claim C8. \<^verbatim>\<open>destroy\<close> removes both listeners and leaves no binding; a second call gives
  the same instance (the function has no error branch, as the source has no \<^verbatim>\<open>throw\<close>);
  after it no dispatched event invokes a callback, also after further public calls, as
  nothing registers the listeners again.
\<close>

theorem destroy_idempotent:
  "bindings (destroy st) = []
   \<and> \<not> keydownListener (destroy st) \<and> \<not> clickListener (destroy st)
   \<and> debug (destroy st) = debug st
   \<and> destroy (destroy st) = destroy st
   \<and> dispatchEvent h (destroy st) ty ev = noEffect
   \<and> invoked (dispatchEvent h (run h (destroy st) calls) ty ev) = []"
proof -
  have n: "\<not> listening (destroy st)" by (simp add: destroy_def listening_def)
  have "dispatchEvent h (run h (destroy st) calls) ty ev = noEffect"
    by (rule dispatch_not_listening [OF run_not_listening [OF n]])
  moreover have "dispatchEvent h (destroy st) ty ev = noEffect"
    by (rule dispatch_not_listening [OF n])
  ultimately show ?thesis by (simp add: destroy_def noEffect_def)
qed

text \<open>
  Claim C4, as stated: through the public calls alone no two bindings with an equal
  canonical (sorted) key set coexist. It fails after \<^verbatim>\<open>bind("ctrl+s")\<close> and \<^verbatim>\<open>bind("s+ctrl")\<close>: the
  joins \<open>ctrl+s\<close> and \<open>s+ctrl\<close> differ, so both are registered, and both have the canonical
  form \<open>ctrl+s\<close>.
\<close>

theorem equal_canonical_coexist_counterexample:
  "\<not> distinct (map (\<lambda>b. canonical asciiHost (keys b))
        (bindings (run asciiHost (new :: nat capynaut)
           [Bind (js ''ctrl+s'') 1 (js ''first'') True,
            Bind (js ''s+ctrl'') 2 (js ''second'') True])))"
proof -
  have "map (\<lambda>b. canonical asciiHost (keys b)) (bindings twin) = [js ''ctrl+s'', js ''ctrl+s'']"
    unfolding twin_bindings by (simp add: string_evals handler_evals)
  then show ?thesis unfolding twin_def by simp
qed

text \<open>
  Claim C4, amended: bindings with an equal canonical key set do coexist in registries
  built by the public calls alone; any two bindings of such a registry differ in the join
  of their keys in parsed order, and when two of them both match an event, the callback
  invoked is that of the first matching binding in registration order, which is at or
  before the earlier of the two.
\<close>

theorem earlier_binding_wins_when_reachable:
  "(\<exists>calls i j. i < j \<and> j < length (bindings (run asciiHost (new :: nat capynaut) calls))
       \<and> canonical asciiHost (keys (bindings (run asciiHost new calls) ! i))
           = canonical asciiHost (keys (bindings (run asciiHost new calls) ! j)))
   \<and> (i < j \<longrightarrow> j < length (bindings (run h new calls)) \<longrightarrow>
        keysJoinOf h (bindings (run h new calls) ! i) \<noteq> keysJoinOf h (bindings (run h new calls) ! j)
        \<and> (pressedOf h ev = Some pressed \<longrightarrow>
             matches h pressed (bindings (run h new calls) ! i) \<longrightarrow>
             matches h pressed (bindings (run h new calls) ! j) \<longrightarrow>
             (\<exists>k\<le>i. matches h pressed (bindings (run h new calls) ! k)
                 \<and> (\<forall>m<k. \<not> matches h pressed (bindings (run h new calls) ! m))
                 \<and> invoked (handleKeydown h (run h new calls) ev)
                     = [callback (bindings (run h new calls) ! k)])))"
proof (intro conjI impI)
  have "(0::nat) < 1 \<and> 1 < length (bindings twin)
       \<and> canonical asciiHost (keys (bindings twin ! 0))
           = canonical asciiHost (keys (bindings twin ! 1))"
    unfolding twin_bindings by (simp add: string_evals handler_evals)
  then show "\<exists>calls i j. i < j \<and> j < length (bindings (run asciiHost (new :: nat capynaut) calls))
       \<and> canonical asciiHost (keys (bindings (run asciiHost new calls) ! i))
           = canonical asciiHost (keys (bindings (run asciiHost new calls) ! j))"
    unfolding twin_def by blast
next
  let ?bs = "bindings (run h new calls)"
  assume ij: "i < j" "j < length ?bs"
  have "distinct (map (keysJoinOf h) ?bs)"
    using run_uniqueJoins [of h new calls, OF new_uniqueJoins] by (simp add: uniqueJoins_def joins_def)
  with ij show "keysJoinOf h (?bs ! i) \<noteq> keysJoinOf h (?bs ! j)"
    by (simp add: distinct_conv_nth)
next
  let ?bs = "bindings (run h new calls)"
  assume ij: "i < j" "j < length ?bs"
    and p: "pressedOf h ev = Some pressed"
    and mi: "matches h pressed (?bs ! i)" and mj: "matches h pressed (?bs ! j)"
  from ij mi have "?bs ! i \<in> set ?bs" by simp
  with mi have "find (matches h pressed) ?bs \<noteq> None"
    by (auto simp: find_None_iff)
  then obtain b where b: "find (matches h pressed) ?bs = Some b" by auto
  then obtain k where k: "k < length ?bs" "matches h pressed (?bs ! k)" "b = ?bs ! k"
      "\<forall>m<k. \<not> matches h pressed (?bs ! m)"
    unfolding find_Some_iff by blast
  from k(4) mi have "k \<le> i" by (meson not_le_imp_less)
  moreover from handleKeydown_find [OF p, of "run h new calls"] b k(3)
  have "invoked (handleKeydown h (run h new calls) ev) = [callback (?bs ! k)]" by simp
  ultimately show "\<exists>k\<le>i. matches h pressed (?bs ! k)
                 \<and> (\<forall>m<k. \<not> matches h pressed (?bs ! m))
                 \<and> invoked (handleKeydown h (run h new calls) ev) = [callback (?bs ! k)]"
    using k(2,4) by blast
qed

theorem earlier_binding_wins_when_reachable_witness:
  "(0::nat) < 1 \<and> 1 < length (bindings twin)
   \<and> keysJoinOf asciiHost (bindings twin ! 0) \<noteq> keysJoinOf asciiHost (bindings twin ! 1)
   \<and> pressedOf asciiHost (KeyboardEvent True False False False (js ''s'')) = Some [js ''ctrl'', js ''s'']
   \<and> matches asciiHost [js ''ctrl'', js ''s''] (bindings twin ! 0)
   \<and> matches asciiHost [js ''ctrl'', js ''s''] (bindings twin ! 1)
   \<and> invoked (handleKeydown asciiHost twin (KeyboardEvent True False False False (js ''s''))) = [1]"
proof -
  let ?ev = "KeyboardEvent True False False False (js ''s'')"
  let ?p = "[js ''ctrl'', js ''s'']"
  note t = earlier_binding_wins_when_reachable [where h = asciiHost and i = 0 and j = 1
      and calls = "[Bind (js ''ctrl+s'') (1::nat) (js ''first'') True,
                    Bind (js ''s+ctrl'') 2 (js ''second'') True]"
      and ev = ?ev and pressed = ?p, folded twin_def]
  have h1: "(0::nat) < 1" by simp
  have h2: "1 < length (bindings twin)" unfolding twin_bindings by simp
  have h3: "pressedOf asciiHost ?ev = Some ?p"
    by (simp add: string_evals parse_evals handler_evals)
  have h4: "matches asciiHost ?p (bindings twin ! 0)"
    unfolding twin_bindings by (simp add: string_evals handler_evals)
  have h5: "matches asciiHost ?p (bindings twin ! 1)"
    unfolding twin_bindings by (simp add: string_evals handler_evals)
  from t h1 h2
  have c1: "keysJoinOf asciiHost (bindings twin ! 0) \<noteq> keysJoinOf asciiHost (bindings twin ! 1)"
    by blast
  from t h1 h2 h3 h4 h5
  have "\<exists>k\<le>0. matches asciiHost ?p (bindings twin ! k)
                 \<and> (\<forall>m<k. \<not> matches asciiHost ?p (bindings twin ! m))
                 \<and> invoked (handleKeydown asciiHost twin ?ev) = [callback (bindings twin ! k)]"
    by blast
  then have c2: "invoked (handleKeydown asciiHost twin ?ev) = [callback (bindings twin ! 0)]"
    by auto
  have c3: "callback (bindings twin ! 0) = 1" unfolding twin_bindings by simp
  show ?thesis using h1 h2 c1 h3 h4 h5 c2 c3 by simp
qed

end
